theory Spec2Isabelle
  imports Main "HOL-Library.Multiset"
begin

section \<open>Data model of awx/main/models/rbac.py\<close>

text \<open>
  The three relations the closure engine works on, one record per row.
  \<^item> \<open>role\<close>: a row of \<open>main_rbac_roles\<close> (class \<open>Role\<close>): the primary key \<open>id\<close>
    (here \<open>role_id\<close>), \<open>role_field\<close>, and the nullable \<open>content_type\<close> and
    \<open>object_id\<close>.
  \<^item> \<open>role_parents\<close>: a row of the through table of \<open>Role.parents\<close>: the role
    \<open>from_role_id\<close> has the direct parent \<open>to_role_id\<close>.
  \<^item> \<open>role_members\<close>: a row of the through table of \<open>Role.members\<close>.
  \<^item> \<open>role_ancestor_entry\<close>: a row of \<open>main_rbac_role_ancestors\<close> (class
    \<open>RoleAncestorEntry\<close>). The surrogate key \<open>id\<close> of that table only identifies a
    row; the model keeps the rows in a list and a row is identified by its occurrence
    in the list, so the table may hold the same five columns twice, as the database may.
\<close>

record role =
  role_id :: nat
  role_field :: string
  content_type :: "nat option"
  object_id :: "nat option"

record role_parents =
  from_role_id :: nat
  to_role_id :: nat

record role_members =
  member_role_id :: nat
  member_user_id :: nat

record role_ancestor_entry =
  descendent :: nat
  ancestor :: nat
  entry_role_field :: string
  content_type_id :: nat
  entry_object_id :: nat

text \<open>
  The statements the engine sends to the store, with what the store reported back:
  the seed purge, the DELETE and the INSERT of a layer with their \<open>cursor.rowcount\<close>,
  and the query for the children of a layer with its result.
\<close>

datatype statement =
    SeedPurge "nat set"
  | LayerDelete "nat set" nat
  | LayerInsert "nat set" nat
  | ChildrenSelect "nat set" "nat set"

text \<open>The exceptions of the module: the safety bound of the rebuild loop, the
  \<open>AttributeError\<close> of \<open>getattr(tls, 'roles_needing_rebuilding')\<close> on a missing
  attribute, and whatever the body of a \<open>with\<close> block raises.\<close>

datatype exn =
    InfiniteLoopDetected
  | AttributeError
  | BodyException string

text \<open>
  The state the module reads and writes: the tables, the statements executed so far
  (most recent first), and the two attributes of the thread-local \<open>tls\<close>. Both readers
  of \<open>tls.batch_role_rebuilding\<close> use \<open>getattr(..., False)\<close>, so a missing attribute
  is the value \<open>False\<close>; \<open>tls.roles_needing_rebuilding\<close> is read without a default,
  so a missing attribute is \<open>None\<close> here and an \<open>AttributeError\<close> when read.
\<close>

record state =
  roles_table :: "role list"
  parents_table :: "role_parents list"
  members_table :: "role_members list"
  ancestors_table :: "role_ancestor_entry list"
  executed :: "statement list"
  batch_role_rebuilding :: bool
  roles_needing_rebuilding :: "nat set option"

section \<open>The statements of \<open>Role._simultaneous_ancestry_rebuild\<close>\<close>

text \<open>\<open>COALESCE(x, 0)\<close>.\<close>

definition coalesce0 :: "nat option \<Rightarrow> nat" where
  "coalesce0 x = (case x of None \<Rightarrow> 0 | Some v \<Rightarrow> v)"

text \<open>\<open>DELETE FROM ancestors WHERE ancestor_id IN (ids)\<close>, executed before the loop.\<close>

definition seed_purge :: "nat set \<Rightarrow> state \<Rightarrow> state" where
  "seed_purge ids w =
     w\<lparr>ancestors_table := [e \<leftarrow> ancestors_table w. ancestor e \<notin> ids],
       executed := SeedPurge ids # executed w\<rparr>"

text \<open>
  The inner query \<open>new_ancestry_list\<close> of the DELETE: the pairs \<open>(from_id, to_id)\<close>
  of the parents' ancestor rows (the LEFT JOIN filtered by
  \<open>ancestors.ancestor_id IS NOT NULL\<close> keeps the joined rows only) UNION the self pair
  of every role of the layer. UNION removes duplicates.
\<close>

definition new_ancestry_pairs :: "nat set \<Rightarrow> state \<Rightarrow> (nat \<times> nat) list" where
  "new_ancestry_pairs ids w =
     remdups
       ([(from_role_id p, ancestor a).
            p \<leftarrow> parents_table w, a \<leftarrow> ancestors_table w,
            to_role_id p = descendent a, from_role_id p \<in> ids]
        @ [(role_id r, role_id r). r \<leftarrow> roles_table w, role_id r \<in> ids])"

text \<open>
  The DELETE of a layer: a row goes when its descendent is in the layer and it is not
  among the rows that \<open>new_ancestry_list LEFT JOIN ancestors\<close> matches on
  \<open>(descendent_id, ancestor_id)\<close>. The count is \<open>cursor.rowcount\<close>.
\<close>

definition layer_delete :: "nat set \<Rightarrow> state \<Rightarrow> nat \<times> state" where
  "layer_delete ids w =
     (let matched = [e. c \<leftarrow> new_ancestry_pairs ids w, e \<leftarrow> ancestors_table w,
                        fst c = descendent e \<and> snd c = ancestor e];
          kept = [e \<leftarrow> ancestors_table w. \<not> (descendent e \<in> ids \<and> e \<notin> set matched)];
          delete_ct = length (ancestors_table w) - length kept
      in (delete_ct,
          w\<lparr>ancestors_table := kept, executed := LayerDelete ids delete_ct # executed w\<rparr>))"

text \<open>
  The inner query of the INSERT: the same union with the three denormalised columns
  of the descendent role (\<open>INNER JOIN roles ON parents.from_role_id = roles.id\<close>).
\<close>

definition new_ancestry_list :: "nat set \<Rightarrow> state \<Rightarrow> role_ancestor_entry list" where
  "new_ancestry_list ids w =
     remdups
       ([\<lparr>descendent = from_role_id p, ancestor = ancestor a,
           entry_role_field = role_field r,
           content_type_id = coalesce0 (content_type r),
           entry_object_id = coalesce0 (object_id r)\<rparr>.
            p \<leftarrow> parents_table w, r \<leftarrow> roles_table w, from_role_id p = role_id r,
            a \<leftarrow> ancestors_table w, to_role_id p = descendent a, from_role_id p \<in> ids]
        @ [\<lparr>descendent = role_id r, ancestor = role_id r,
             entry_role_field = role_field r,
             content_type_id = coalesce0 (content_type r),
             entry_object_id = coalesce0 (object_id r)\<rparr>.
            r \<leftarrow> roles_table w, role_id r \<in> ids])"

text \<open>
  The INSERT of a layer: the rows of \<open>new_ancestry_list\<close> that the LEFT JOIN with
  \<open>ancestors\<close> leaves without a partner (\<open>ancestors.id IS NULL\<close>).
\<close>

definition layer_insert :: "nat set \<Rightarrow> state \<Rightarrow> nat \<times> state" where
  "layer_insert ids w =
     (let new_rows = [c \<leftarrow> new_ancestry_list ids w.
                        \<not> (\<exists>e \<in> set (ancestors_table w).
                              descendent e = descendent c \<and> ancestor e = ancestor c)];
          insert_ct = length new_rows
      in (insert_ct,
          w\<lparr>ancestors_table := ancestors_table w @ new_rows,
            executed := LayerInsert ids insert_ct # executed w\<rparr>))"

text \<open>
  \<open>Role.objects.distinct().filter(id__in=ids, children__id__isnull=False)
  .values_list('children__id', flat=True)\<close>: the roles that have a role of the layer
  as a direct parent.
\<close>

definition children_ids :: "nat set \<Rightarrow> state \<Rightarrow> nat set" where
  "children_ids ids w =
     set [from_role_id p.
            r \<leftarrow> roles_table w, role_id r \<in> ids,
            p \<leftarrow> parents_table w, to_role_id p = role_id r]"

definition children_select :: "nat set \<Rightarrow> state \<Rightarrow> nat set \<times> state" where
  "children_select ids w =
     (children_ids ids w,
      w\<lparr>executed := ChildrenSelect ids (children_ids ids w) # executed w\<rparr>)"

section \<open>The rebuild\<close>

text \<open>
  The \<open>while role_ids_to_rebuild:\<close> loop, with its counter. The three ways out are the
  three non-recursive branches: the loop condition, the \<open>raise\<close>, and the \<open>break\<close>.
\<close>

function rebuild_loop :: "nat \<Rightarrow> nat set \<Rightarrow> state \<Rightarrow> exn option \<times> state" where
  "rebuild_loop loop_ct ids w =
     (if ids = {} then (None, w)
      else if loop_ct > 1000 then (Some InfiniteLoopDetected, w)
      else
        (case layer_delete ids w of (delete_ct, w1) \<Rightarrow>
         case layer_insert ids w1 of (insert_ct, w2) \<Rightarrow>
           if insert_ct = 0 \<and> delete_ct = 0 then (None, w2)
           else
             (case children_select ids w2 of (ids', w3) \<Rightarrow>
                rebuild_loop (loop_ct + 1) ids' w3)))"
  by pat_completeness auto
termination
  by (relation "measure (\<lambda>(loop_ct, ids, w). 1001 - loop_ct)") auto

declare rebuild_loop.simps [simp del]

definition simultaneous_ancestry_rebuild :: "nat set \<Rightarrow> state \<Rightarrow> exn option \<times> state" where
  "simultaneous_ancestry_rebuild role_ids_to_rebuild w =
     (if role_ids_to_rebuild = {} then (None, w)
      else rebuild_loop 0 role_ids_to_rebuild (seed_purge role_ids_to_rebuild w))"

text \<open>\<open>Role.rebuild_role_ancestor_list\<close> of the role with the given id.\<close>

definition rebuild_role_ancestor_list :: "nat \<Rightarrow> state \<Rightarrow> exn option \<times> state" where
  "rebuild_role_ancestor_list self_id w =
     (if batch_role_rebuilding w then
        (case roles_needing_rebuilding w of
           None \<Rightarrow> (Some AttributeError, w)
         | Some s \<Rightarrow> (None, w\<lparr>roles_needing_rebuilding := Some (insert self_id s)\<rparr>))
      else simultaneous_ancestry_rebuild {self_id} w)"

section \<open>The batching context\<close>

text \<open>
  \<open>with transaction.atomic():\<close> around a block: when the block raises, the writes
  to the store are rolled back and the exception goes on. The engine writes the
  ancestors table only.
\<close>

definition atomic :: "(state \<Rightarrow> exn option \<times> state) \<Rightarrow> state \<Rightarrow> exn option \<times> state" where
  "atomic block w =
     (case block w of
        (None, w') \<Rightarrow> (None, w')
      | (Some e, w') \<Rightarrow> (Some e, w'\<lparr>ancestors_table := ancestors_table w\<rparr>))"

text \<open>
  \<open>batch_role_ancestor_rebuilding\<close> is a generator-based context manager: the code up
  to \<open>yield\<close> runs on entry (\<open>batch_enter\<close>, which returns the local variable
  \<open>batch_role_rebuilding\<close>), the \<open>finally\<close> block runs on every way out of the body
  (\<open>batch_exit\<close>). The parameter \<open>allow_nesting\<close> is never read.
\<close>

definition batch_enter :: "bool \<Rightarrow> state \<Rightarrow> bool \<times> state" where
  "batch_enter allow_nesting w =
     (let saved = batch_role_rebuilding w;
          w1 = w\<lparr>batch_role_rebuilding := True\<rparr>;
          w2 = (if \<not> saved then w1\<lparr>roles_needing_rebuilding := Some {}\<rparr> else w1)
      in (saved, w2))"

definition batch_exit :: "bool \<Rightarrow> state \<Rightarrow> exn option \<times> state" where
  "batch_exit saved w =
     (let w1 = w\<lparr>batch_role_rebuilding := saved\<rparr> in
      if \<not> saved then
        (case roles_needing_rebuilding w1 of
           None \<Rightarrow> (Some AttributeError, w1)
         | Some rebuild_set \<Rightarrow>
             (case atomic (simultaneous_ancestry_rebuild rebuild_set) w1 of
                (Some e, w2) \<Rightarrow> (Some e, w2)
              | (None, w2) \<Rightarrow> (None, w2\<lparr>roles_needing_rebuilding := None\<rparr>)))
      else (None, w1))"

text \<open>
  \<open>with batch_role_ancestor_rebuilding(allow_nesting): body\<close>. The body returns the
  exception it raised, if any. An exception of the \<open>finally\<close> block replaces the
  body's.
\<close>

definition batch_role_ancestor_rebuilding ::
  "bool \<Rightarrow> (state \<Rightarrow> exn option \<times> state) \<Rightarrow> state \<Rightarrow> exn option \<times> state" where
  "batch_role_ancestor_rebuilding allow_nesting body w =
     (case batch_enter allow_nesting w of (saved, w1) \<Rightarrow>
      case body w1 of (raised, w2) \<Rightarrow>
      case batch_exit saved w2 of
        (Some e, w3) \<Rightarrow> (Some e, w3)
      | (None, w3) \<Rightarrow> (raised, w3))"

section \<open>\<open>get_roles_on_resource\<close>\<close>

text \<open>
  The accessor is a \<open>User\<close>, a \<open>Role\<close>, or any other model object, given by the id of
  its content type and its own id. A resource is a model object of the latter kind.
\<close>

datatype accessor =
    User nat
  | RoleAccessor nat
  | ObjectAccessor nat nat

record resource =
  resource_content_type :: nat
  resource_id :: nat

definition accessor_roles :: "accessor \<Rightarrow> state \<Rightarrow> nat list" where
  "accessor_roles accessor w =
     (case accessor of
        User u \<Rightarrow>
          [role_id r. r \<leftarrow> roles_table w, m \<leftarrow> members_table w,
                      member_role_id m = role_id r, member_user_id m = u]
      | RoleAccessor r \<Rightarrow> [r]
      | ObjectAccessor accessor_type accessor_id \<Rightarrow>
          [role_id r. r \<leftarrow> roles_table w,
                      content_type r = Some accessor_type, object_id r = Some accessor_id])"

definition get_roles_on_resource :: "resource \<Rightarrow> accessor \<Rightarrow> state \<Rightarrow> (string \<rightharpoonup> bool)" where
  "get_roles_on_resource res accessor w =
     (let roles = accessor_roles accessor w in
      map_of (rev [(entry_role_field e, True).
                 e \<leftarrow> ancestors_table w,
                 ancestor e \<in> set roles,
                 content_type_id e = resource_content_type res,
                 entry_object_id e = resource_id res]))"

section \<open>Reachability in the parents relation\<close>

definition parent_edges :: "state \<Rightarrow> (nat \<times> nat) set" where
  "parent_edges w = {(from_role_id p, to_role_id p) | p. p \<in> set (parents_table w)}"

definition reachable :: "state \<Rightarrow> nat \<Rightarrow> nat \<Rightarrow> bool" where
  "reachable w d a \<longleftrightarrow> (d, a) \<in> (parent_edges w)\<^sup>*"

text \<open>
  What the engine leaves alone: it writes the ancestors table and sends statements,
  and nothing else of the state changes.
\<close>

definition same_frame :: "state \<Rightarrow> state \<Rightarrow> bool" where
  "same_frame w w' \<longleftrightarrow>
     roles_table w' = roles_table w \<and> parents_table w' = parents_table w \<and>
     members_table w' = members_table w \<and>
     batch_role_rebuilding w' = batch_role_rebuilding w \<and>
     roles_needing_rebuilding w' = roles_needing_rebuilding w"

section \<open>Callers and specification-side notions\<close>

text \<open>
  A body of a \<open>with\<close> block that calls \<open>rebuild_role_ancestor_list\<close> on the roles of
  a list in turn (what \<open>Role.save\<close> does after storing each role); the first exception
  ends it.
\<close>

fun rebuild_roles :: "nat list \<Rightarrow> state \<Rightarrow> exn option \<times> state" where
  "rebuild_roles [] w = (None, w)"
| "rebuild_roles (r # rs) w =
     (case rebuild_role_ancestor_list r w of
        (Some e, w') \<Rightarrow> (Some e, w')
      | (None, w') \<Rightarrow> rebuild_roles rs w')"

text \<open>A body that requests the rebuild of the roles of a list and then raises.\<close>

definition raising_body :: "nat list \<Rightarrow> state \<Rightarrow> exn option \<times> state" where
  "raising_body rs w =
     (case rebuild_roles rs w of
        (Some e, w') \<Rightarrow> (Some e, w')
      | (None, w') \<Rightarrow> (Some (BodyException ''bulk update failed''), w'))"

text \<open>
  The specification's reading of \<open>roles_on_resource\<close>: the roles an accessor holds,
  and the set of \<open>role_field\<close> values of the ancestor rows of those roles on a
  resource.
\<close>

definition roles_held :: "accessor \<Rightarrow> state \<Rightarrow> nat set" where
  "roles_held accessor w =
     (case accessor of
        User u \<Rightarrow>
          {role_id r | r. r \<in> set (roles_table w) \<and>
             (\<exists>m \<in> set (members_table w). member_role_id m = role_id r \<and> member_user_id m = u)}
      | RoleAccessor r \<Rightarrow> {r}
      | ObjectAccessor t i \<Rightarrow>
          {role_id r | r. r \<in> set (roles_table w) \<and>
             content_type r = Some t \<and> object_id r = Some i})"

definition spec_roles_on_resource :: "resource \<Rightarrow> accessor \<Rightarrow> state \<Rightarrow> string set" where
  "spec_roles_on_resource res accessor w =
     {entry_role_field e | e. e \<in> set (ancestors_table w) \<and>
        ancestor e \<in> roles_held accessor w \<and>
        content_type_id e = resource_content_type res \<and>
        entry_object_id e = resource_id res}"

text \<open>The number of rows of the ancestors table for a pair, and the pairs it holds.\<close>

definition row_count :: "state \<Rightarrow> nat \<Rightarrow> nat \<Rightarrow> nat" where
  "row_count w d a = length [e \<leftarrow> ancestors_table w. descendent e = d \<and> ancestor e = a]"

definition ancestor_pairs :: "state \<Rightarrow> (nat \<times> nat) list" where
  "ancestor_pairs w = map (\<lambda>e. (descendent e, ancestor e)) (ancestors_table w)"


text \<open>
  The part of the role graph a rebuild can sweep: the roles reachable from the seed
  by going from a role to the roles that have it as a direct parent.
\<close>

definition child_edges :: "state \<Rightarrow> (nat \<times> nat) set" where
  "child_edges w = {(to_role_id p, from_role_id p) | p. p \<in> set (parents_table w)}"

definition sweep_region :: "nat set \<Rightarrow> state \<Rightarrow> nat set" where
  "sweep_region ids w = (child_edges w)\<^sup>* `` ids"

text \<open>
  The row the INSERT writes for a descendent role and an ancestor: the three
  denormalised columns are the role's, with \<open>NULL\<close> stored as 0.
\<close>

definition role_entry :: "role \<Rightarrow> nat \<Rightarrow> role_ancestor_entry" where
  "role_entry r a =
     \<lparr>descendent = role_id r, ancestor = a, entry_role_field = role_field r,
      content_type_id = coalesce0 (content_type r),
      entry_object_id = coalesce0 (object_id r)\<rparr>"

section \<open>Notions for the rebuild as a sweep over layers\<close>

text \<open>
  The two statements of one layer taken together: the state after them, and the
  number of rows they deleted and inserted (\<open>delete_ct + insert_ct\<close>).
\<close>

definition layer :: "nat set \<Rightarrow> state \<Rightarrow> state" where
  "layer L v = snd (layer_insert L (snd (layer_delete L v)))"

definition layer_work :: "nat set \<Rightarrow> state \<Rightarrow> nat" where
  "layer_work L v = fst (layer_delete L v) + fst (layer_insert L (snd (layer_delete L v)))"

text \<open>
  The set of roles the loop works on in its \<open>k\<close>-th iteration (counted from 0), and
  the state at the head of that iteration if no exit is taken before: the layers depend
  on the roles and parents tables only.
\<close>

definition nth_layer :: "state \<Rightarrow> nat set \<Rightarrow> nat \<Rightarrow> nat set" where
  "nth_layer w S k = ((\<lambda>L. children_ids L w) ^^ k) S"

primrec sweep :: "nat \<Rightarrow> nat set \<Rightarrow> state \<Rightarrow> state" where
  "sweep 0 S v = v"
| "sweep (Suc k) S v = layer (nth_layer v S k) (sweep k S v)"

text \<open>
  Membership in the inner queries, read off the tables: \<open>supported v d a\<close> says the
  pair \<open>(d, a)\<close> is in the \<open>new_ancestry_list\<close> of the DELETE, \<open>candidate v r a\<close> that
  the row of role \<open>r\<close> with ancestor \<open>a\<close> is in that of the INSERT. A role is settled
  when a layer would neither delete one of its rows nor insert one; the predicate
  \<open>P\<close> restricts this to the rows whose ancestor satisfies it.
\<close>

definition supported :: "state \<Rightarrow> nat \<Rightarrow> nat \<Rightarrow> bool" where
  "supported v d a \<longleftrightarrow>
     (\<exists>p \<in> set (parents_table v).
        from_role_id p = d \<and> (to_role_id p, a) \<in> set (ancestor_pairs v))
     \<or> (\<exists>r \<in> set (roles_table v). role_id r = d \<and> a = d)"

definition candidate :: "state \<Rightarrow> role \<Rightarrow> nat \<Rightarrow> bool" where
  "candidate v r a \<longleftrightarrow>
     (\<exists>p \<in> set (parents_table v).
        from_role_id p = role_id r \<and> (to_role_id p, a) \<in> set (ancestor_pairs v))
     \<or> a = role_id r"

definition settled :: "(nat \<Rightarrow> bool) \<Rightarrow> state \<Rightarrow> nat \<Rightarrow> bool" where
  "settled P v y \<longleftrightarrow>
     (\<forall>e \<in> set (ancestors_table v).
        descendent e = y \<and> P (ancestor e) \<longrightarrow> supported v y (ancestor e)) \<and>
     (\<forall>r \<in> set (roles_table v). \<forall>a.
        role_id r = y \<and> P a \<and> candidate v r a \<longrightarrow> (y, a) \<in> set (ancestor_pairs v))"

text \<open>
  The rows of the table whose ancestor satisfies a predicate, as a multiset; two
  states with the same roles and parents; and the foreign key of the parents table on
  its \<open>to_role\<close> column.
\<close>

definition part :: "(nat \<Rightarrow> bool) \<Rightarrow> state \<Rightarrow> role_ancestor_entry multiset" where
  "part P v = filter_mset (\<lambda>e. P (ancestor e)) (mset (ancestors_table v))"

definition same_graph :: "state \<Rightarrow> state \<Rightarrow> bool" where
  "same_graph u v \<longleftrightarrow> roles_table u = roles_table v \<and> parents_table u = parents_table v"

definition parents_in_roles :: "state \<Rightarrow> bool" where
  "parents_in_roles w \<longleftrightarrow>
     (\<forall>p \<in> set (parents_table w). to_role_id p \<in> role_id ` set (roles_table w))"


text \<open>
  The outcome of the loop in terms of the sweep: it ran \<open>m\<close> layers; it returned
  normally because the next layer is empty or the last one did no work, or it raised
  after 1001 layers that all did work.
\<close>

definition work_at :: "state \<Rightarrow> nat set \<Rightarrow> nat \<Rightarrow> nat" where
  "work_at v S j = layer_work (nth_layer v S j) (sweep j S v)"

definition loop_outcome :: "nat set \<Rightarrow> state \<Rightarrow> nat \<Rightarrow> exn option \<times> state \<Rightarrow> bool" where
  "loop_outcome S v m res \<longleftrightarrow>
     m \<le> 1001 \<and> same_graph v (snd res) \<and>
     mset (ancestors_table (snd res)) = mset (ancestors_table (sweep m S v)) \<and>
     (\<forall>j<m. nth_layer v S j \<noteq> {}) \<and>
     (\<forall>j. Suc j < m \<longrightarrow> work_at v S j \<noteq> 0) \<and>
     (fst res = None \<and> (nth_layer v S m = {} \<or> 0 < m \<and> work_at v S (m - 1) = 0)
      \<or> fst res = Some InfiniteLoopDetected \<and> m = 1001 \<and> nth_layer v S m \<noteq> {} \<and>
        work_at v S 1000 \<noteq> 0)"

section \<open>Example stores\<close>

definition mk_role :: "nat \<Rightarrow> role" where
  "mk_role i = \<lparr>role_id = i, role_field = ''member_role'', content_type = None, object_id = None\<rparr>"

definition mk_entry :: "nat \<Rightarrow> nat \<Rightarrow> role_ancestor_entry" where
  "mk_entry d a = \<lparr>descendent = d, ancestor = a, entry_role_field = ''member_role'',
                   content_type_id = 0, entry_object_id = 0\<rparr>"

definition mk_edge :: "nat \<Rightarrow> nat \<Rightarrow> role_parents" where
  "mk_edge f t = \<lparr>from_role_id = f, to_role_id = t\<rparr>"

definition mk_store :: "role list \<Rightarrow> role_parents list \<Rightarrow> role_ancestor_entry list \<Rightarrow> state" where
  "mk_store rs ps es =
     \<lparr>roles_table = rs, parents_table = ps, members_table = [], ancestors_table = es,
      executed = [], batch_role_rebuilding = False, roles_needing_rebuilding = None\<rparr>"

text \<open>
  Roles 1 and 2 inherit from each other; role 1 also inherited from role 3 until the
  edge \<open>(1, 3)\<close> was removed. The ancestors table is still the closure of the graph
  with that edge: the state in which \<open>rebuild_role_ancestor_list\<close> of role 1 runs
  after the removal.
\<close>

definition cycle_store :: state where
  "cycle_store =
     mk_store [mk_role 1, mk_role 2, mk_role 3] [mk_edge 1 2, mk_edge 2 1]
       [mk_entry 1 1, mk_entry 1 2, mk_entry 1 3,
        mk_entry 2 1, mk_entry 2 2, mk_entry 2 3, mk_entry 3 3]"

text \<open>A new role 1 without parents or children, before its first rebuild.\<close>

definition single_store :: state where
  "single_store = mk_store [mk_role 1] [] []"

text \<open>The chain of scenario 1: role 1 inherits from 2, role 2 from 3; closure complete.\<close>

definition chain_store :: state where
  "chain_store =
     mk_store [mk_role 1, mk_role 2, mk_role 3] [mk_edge 1 2, mk_edge 2 3]
       [mk_entry 1 1, mk_entry 2 2, mk_entry 3 3, mk_entry 2 3, mk_entry 1 2, mk_entry 1 3]"

text \<open>
  The chain store with two rows more, both with the descendent 3, which no rebuild
  seeded at role 2 sweeps: one with the ancestor 2 and one with the ancestor 1.
\<close>

definition stale_store :: state where
  "stale_store =
     chain_store\<lparr>ancestors_table := ancestors_table chain_store @ [mk_entry 3 2, mk_entry 3 1]\<rparr>"

text \<open>The chain store inside an active batching context that has accumulated role 2.\<close>

definition batching_store :: state where
  "batching_store =
     chain_store\<lparr>batch_role_rebuilding := True, roles_needing_rebuilding := Some {2}\<rparr>"

text \<open>
  Scenario 6: role 1 is the \<open>admin_role\<close> of the object 5 of content type 4, user 9 is
  a member of it.
\<close>

definition resource_store :: state where
  "resource_store =
     \<lparr>roles_table = [\<lparr>role_id = 1, role_field = ''admin_role'',
                       content_type = Some 4, object_id = Some 5\<rparr>],
      parents_table = [],
      members_table = [\<lparr>member_role_id = 1, member_user_id = 9\<rparr>],
      ancestors_table = [\<lparr>descendent = 1, ancestor = 1, entry_role_field = ''admin_role'',
                           content_type_id = 4, entry_object_id = 5\<rparr>],
      executed = [], batch_role_rebuilding = False, roles_needing_rebuilding = None\<rparr>"

section \<open>Evaluation on concrete stores\<close>

lemmas store_defs = mk_role_def mk_entry_def mk_edge_def mk_store_def

lemmas engine_defs =
  simultaneous_ancestry_rebuild_def seed_purge_def rebuild_loop.simps layer_delete_def
  layer_insert_def children_select_def children_ids_def new_ancestry_pairs_def
  new_ancestry_list_def coalesce0_def Let_def

section \<open>The empty seed\<close>

text \<open>
  Claim C10. A rebuild with an empty set of role ids returns at once: the state,
  with its ancestors table and its list of executed statements, is the one it was
  given, so not even the seed purge is sent. Leaving an outermost batching context
  whose accumulated set is empty therefore only resets the flag and removes the set.
\<close>

theorem empty_seed_rebuild_is_noop:
  "simultaneous_ancestry_rebuild {} w = (None, w) \<and>
   (roles_needing_rebuilding w = Some {} \<longrightarrow>
      batch_exit False w =
        (None, w\<lparr>batch_role_rebuilding := False, roles_needing_rebuilding := None\<rparr>))"
  by (simp add: simultaneous_ancestry_rebuild_def batch_exit_def atomic_def)

theorem empty_seed_rebuild_is_noop_witness:
  "simultaneous_ancestry_rebuild {} chain_store = (None, chain_store) \<and>
   ancestors_table (snd (batch_role_ancestor_rebuilding False (rebuild_roles []) chain_store))
     = ancestors_table chain_store \<and>
   executed (snd (batch_role_ancestor_rebuilding False (rebuild_roles []) chain_store)) = []"
  using empty_seed_rebuild_is_noop [of "snd (batch_enter False chain_store)"]
        empty_seed_rebuild_is_noop [of "chain_store"]
  by (simp add: batch_role_ancestor_rebuilding_def batch_enter_def chain_store_def store_defs)

section \<open>Rebuild requests inside a batching context\<close>

lemma rebuild_role_in_batch:
  "batch_role_rebuilding w \<Longrightarrow> roles_needing_rebuilding w = Some s \<Longrightarrow>
   rebuild_role_ancestor_list r w = (None, w\<lparr>roles_needing_rebuilding := Some (insert r s)\<rparr>)"
  by (simp add: rebuild_role_ancestor_list_def)

text \<open>
  Claim C5. While the batching flag is set, every call of
  \<open>rebuild_role_ancestor_list\<close> returns normally and changes nothing but the
  accumulated set, to which it adds the role's id: after any sequence of calls the
  tables and the list of executed statements are those before the first call.
\<close>

theorem batching_defers_closure_work:
  assumes "batch_role_rebuilding w" and "roles_needing_rebuilding w = Some s"
  shows "rebuild_roles rs w = (None, w\<lparr>roles_needing_rebuilding := Some (set rs \<union> s)\<rparr>)"
  using assms
proof (induction rs arbitrary: w s)
  case Nil
  then show ?case by simp
next
  case (Cons r rs)
  let ?w' = "w\<lparr>roles_needing_rebuilding := Some (insert r s)\<rparr>"
  have step: "rebuild_role_ancestor_list r w = (None, ?w')"
    using Cons.prems by (rule rebuild_role_in_batch)
  have "rebuild_roles rs ?w' = (None, ?w'\<lparr>roles_needing_rebuilding := Some (set rs \<union> insert r s)\<rparr>)"
    using Cons.prems by (intro Cons.IH) simp_all
  then show ?case using step by simp
qed

theorem batching_defers_closure_work_witness:
  "rebuild_roles [1, 3] batching_store
     = (None, batching_store\<lparr>roles_needing_rebuilding := Some {1, 2, 3}\<rparr>)"
proof -
  have "set [1, 3] \<union> {2} = {1, 2, 3::nat}" by auto
  then show ?thesis
    using batching_defers_closure_work [of batching_store "{2}" "[1, 3]"]
    by (simp add: batching_store_def)
qed

section \<open>The loop rule and the frame of the engine\<close>

text \<open>
  A rule for the loop: an invariant \<open>I\<close> of the loop head that every full layer
  keeps gives \<open>Q\<close> of the result, when \<open>Q\<close> holds on each of the three ways out.
\<close>

lemma rebuild_loop_rule:
  assumes init: "I loop_ct ids w"
    and step: "\<And>c L v d v1 i v2 L' v3.
        I c L v \<Longrightarrow> L \<noteq> {} \<Longrightarrow> c \<le> 1000 \<Longrightarrow> layer_delete L v = (d, v1) \<Longrightarrow>
        layer_insert L v1 = (i, v2) \<Longrightarrow> \<not> (i = 0 \<and> d = 0) \<Longrightarrow>
        children_select L v2 = (L', v3) \<Longrightarrow> I (c + 1) L' v3"
    and empty: "\<And>c v. I c {} v \<Longrightarrow> Q (None, v)"
    and raise: "\<And>c L v. I c L v \<Longrightarrow> L \<noteq> {} \<Longrightarrow> c > 1000 \<Longrightarrow>
        Q (Some InfiniteLoopDetected, v)"
    and break: "\<And>c L v v1 v2.
        I c L v \<Longrightarrow> L \<noteq> {} \<Longrightarrow> c \<le> 1000 \<Longrightarrow> layer_delete L v = (0, v1) \<Longrightarrow>
        layer_insert L v1 = (0, v2) \<Longrightarrow> Q (None, v2)"
  shows "Q (rebuild_loop loop_ct ids w)"
  using init
proof (induction loop_ct ids w rule: rebuild_loop.induct)
  case (1 loop_ct ids w)
  show ?case
  proof (cases "ids = {}")
    case True
    then show ?thesis using empty "1.prems" by (simp add: rebuild_loop.simps [of loop_ct])
  next
    case ne: False
    show ?thesis
    proof (cases "loop_ct > 1000")
      case True
      then show ?thesis using raise "1.prems" ne by (simp add: rebuild_loop.simps [of loop_ct])
    next
      case le: False
      obtain d w1 where d: "layer_delete ids w = (d, w1)" by (cases "layer_delete ids w")
      obtain i w2 where i: "layer_insert ids w1 = (i, w2)" by (cases "layer_insert ids w1")
      obtain ids' w3 where c: "children_select ids w2 = (ids', w3)"
        by (cases "children_select ids w2")
      show ?thesis
      proof (cases "i = 0 \<and> d = 0")
        case True
        then have "Q (None, w2)" using break [OF "1.prems" ne _ _ _, of w1 w2] le d i by simp
        then show ?thesis using ne le d i True by (simp add: rebuild_loop.simps [of loop_ct])
      next
        case nz: False
        have "I (loop_ct + 1) ids' w3"
          using step [OF "1.prems" ne _ d i nz c] le by simp
        then have "Q (rebuild_loop (loop_ct + 1) ids' w3)"
          using "1.IH" [OF ne le d [symmetric] i [symmetric] nz c [symmetric]] by simp
        then show ?thesis using ne le d i c nz by (auto simp: rebuild_loop.simps [of loop_ct])
      qed
    qed
  qed
qed

lemma same_frame_refl: "same_frame w w"
  by (simp add: same_frame_def)

lemma same_frame_trans: "same_frame a b \<Longrightarrow> same_frame b c \<Longrightarrow> same_frame a c"
  by (simp add: same_frame_def)

lemma snd_layer_delete_frame: "same_frame w (snd (layer_delete ids w))"
  by (simp add: layer_delete_def Let_def same_frame_def)

lemma layer_delete_frame: "layer_delete ids w = (d, w') \<Longrightarrow> same_frame w w'"
  using snd_layer_delete_frame [of w ids] by simp

lemma snd_layer_insert_frame: "same_frame w (snd (layer_insert ids w))"
  by (simp add: layer_insert_def Let_def same_frame_def)

lemma layer_insert_frame: "layer_insert ids w = (i, w') \<Longrightarrow> same_frame w w'"
  using snd_layer_insert_frame [of w ids] by simp

lemma snd_children_select_frame: "same_frame w (snd (children_select ids w))"
  by (simp add: children_select_def same_frame_def)

lemma children_select_frame: "children_select ids w = (ids', w') \<Longrightarrow> same_frame w w'"
  using snd_children_select_frame [of w ids] by simp

lemma seed_purge_frame: "same_frame w (seed_purge ids w)"
  by (simp add: seed_purge_def same_frame_def)

lemma layer_frame:
  assumes "same_frame w v" "layer_delete L v = (d, v1)" "layer_insert L v1 = (i, v2)"
  shows "same_frame w v2"
  using assms(1) layer_delete_frame [OF assms(2)] layer_insert_frame [OF assms(3)]
  by (blast intro: same_frame_trans)

lemma rebuild_loop_frame: "same_frame w (snd (rebuild_loop loop_ct ids w))"
proof (rule rebuild_loop_rule [where I = "\<lambda>c L v. same_frame w v"
                                    and Q = "\<lambda>r. same_frame w (snd r)"])
  show "same_frame w w" by (rule same_frame_refl)
next
  fix c L v d v1 i v2 L' v3
  assume a: "same_frame w v" "layer_delete L v = (d, v1)" "layer_insert L v1 = (i, v2)"
    and c: "children_select L v2 = (L', v3)"
  from a have "same_frame w v2" by (rule layer_frame)
  then show "same_frame w v3"
    using children_select_frame [OF c] by (rule same_frame_trans)
next
  fix c L v v1 v2
  assume "same_frame w v" "layer_delete L v = (0, v1)" "layer_insert L v1 = (0, v2)"
  then have "same_frame w v2" by (rule layer_frame)
  then show "same_frame w (snd (None, v2))" by simp
qed simp_all

lemma simultaneous_ancestry_rebuild_frame:
  "same_frame w (snd (simultaneous_ancestry_rebuild ids w))"
  using rebuild_loop_frame [of "seed_purge ids w" 0 ids] seed_purge_frame [of w ids]
  by (auto simp: simultaneous_ancestry_rebuild_def same_frame_refl intro: same_frame_trans)

lemma atomic_rebuild_frame:
  "same_frame w (snd (atomic (simultaneous_ancestry_rebuild ids) w))"
  using simultaneous_ancestry_rebuild_frame [of w ids]
  by (cases "simultaneous_ancestry_rebuild ids w")
     (auto simp: atomic_def same_frame_def split: option.splits)

section \<open>The batching context\<close>

lemma flag_already_set: "batch_role_rebuilding w \<Longrightarrow> w\<lparr>batch_role_rebuilding := True\<rparr> = w"
  by (cases w) simp

text \<open>
  Claim C3, as amended. Entering a batching context while another one is active is
  not an error, whatever \<open>allow_nesting\<close> is (the parameter is never read): the
  entry leaves the state as it is and hands the saved flag \<open>True\<close> to the exit, and
  the exit only writes the flag \<open>True\<close> back. So the inner context adds nothing to
  what its body does: it neither clears the accumulated set nor calls the rebuild.
\<close>

theorem nested_context_is_noop:
  assumes "batch_role_rebuilding w"
  shows "batch_enter allow_nesting w = (True, w) \<and>
         batch_exit True w' = (None, w'\<lparr>batch_role_rebuilding := True\<rparr>) \<and>
         batch_role_ancestor_rebuilding allow_nesting body w =
           (fst (body w), (snd (body w))\<lparr>batch_role_rebuilding := True\<rparr>)"
  using assms
  by (simp add: batch_enter_def batch_exit_def batch_role_ancestor_rebuilding_def
        flag_already_set split: prod.splits)

theorem nested_context_is_noop_witness:
  "batch_role_ancestor_rebuilding True (rebuild_roles [1]) batching_store =
     (None, batching_store\<lparr>roles_needing_rebuilding := Some {1, 2}\<rparr>)"
proof -
  have a: "batch_role_rebuilding batching_store" by (simp add: batching_store_def)
  have b: "rebuild_roles [1] batching_store = (None, batching_store\<lparr>roles_needing_rebuilding := Some {1, 2}\<rparr>)"
    by (simp add: batching_store_def rebuild_role_ancestor_list_def)
  show ?thesis
    using nested_context_is_noop [OF a, of True batching_store "rebuild_roles [1]"] b
    by (simp add: batching_store_def)
qed

text \<open>
  The claim as stated fails: with \<open>allow_nesting = False\<close>, inside an active context,
  the inner context returns normally.
\<close>

theorem nesting_without_permission_counterexample:
  "batch_role_ancestor_rebuilding False (rebuild_roles [1]) batching_store =
     (None, batching_store\<lparr>roles_needing_rebuilding := Some {1, 2}\<rparr>)"
  by (simp add: batch_role_ancestor_rebuilding_def batch_enter_def batch_exit_def
        batching_store_def rebuild_role_ancestor_list_def)

text \<open>
  Claim C6. Leaving the outermost batching context resets the flag and calls the
  rebuild once, inside \<open>transaction.atomic()\<close>, on the set accumulated at the end of
  the body, whether the body returned normally (\<open>raised = None\<close>) or raised
  (\<open>raised = Some e\<close>). The body's exception goes on to the caller unless the
  rebuild raises itself.
\<close>

theorem batch_release_on_every_exit_path:
  assumes "\<not> batch_role_rebuilding w"
    and "body (w\<lparr>batch_role_rebuilding := True, roles_needing_rebuilding := Some {}\<rparr>)
           = (raised, w_body)"
    and "roles_needing_rebuilding w_body = Some accumulated"
  shows "batch_role_ancestor_rebuilding allow_nesting body w =
           (case atomic (simultaneous_ancestry_rebuild accumulated)
                   (w_body\<lparr>batch_role_rebuilding := False\<rparr>) of
              (Some e, w3) \<Rightarrow> (Some e, w3)
            | (None, w3) \<Rightarrow> (raised, w3\<lparr>roles_needing_rebuilding := None\<rparr>)) \<and>
         \<not> batch_role_rebuilding (snd (batch_role_ancestor_rebuilding allow_nesting body w))"
proof -
  let ?w1 = "w\<lparr>batch_role_rebuilding := True, roles_needing_rebuilding := Some {}\<rparr>"
  have enter: "batch_enter allow_nesting w = (False, ?w1)"
    using assms(1) by (simp add: batch_enter_def)
  obtain r3 w3 where at: "atomic (simultaneous_ancestry_rebuild accumulated)
                   (w_body\<lparr>batch_role_rebuilding := False\<rparr>) = (r3, w3)"
    by (cases "atomic (simultaneous_ancestry_rebuild accumulated) (w_body\<lparr>batch_role_rebuilding := False\<rparr>)")
  have flag: "\<not> batch_role_rebuilding w3"
    using atomic_rebuild_frame [of "w_body\<lparr>batch_role_rebuilding := False\<rparr>" accumulated] at
    by (simp add: same_frame_def)
  have exit: "batch_exit False w_body =
      (case r3 of Some e \<Rightarrow> (Some e, w3) | None \<Rightarrow> (None, w3\<lparr>roles_needing_rebuilding := None\<rparr>))"
    using assms(3) at by (simp add: batch_exit_def split: option.splits)
  show ?thesis
    using enter assms(2) exit at flag
    by (simp add: batch_role_ancestor_rebuilding_def split: option.splits)
qed

theorem batch_release_on_every_exit_path_witness:
  "batch_role_ancestor_rebuilding False (raising_body [1]) single_store =
     (Some (BodyException ''bulk update failed''),
      single_store\<lparr>ancestors_table := [mk_entry 1 1],
        executed := [ChildrenSelect {1} {}, LayerInsert {1} 1, LayerDelete {1} 0, SeedPurge {1}]\<rparr>)"
proof -
  let ?w1 = "single_store\<lparr>batch_role_rebuilding := True, roles_needing_rebuilding := Some {}\<rparr>"
  let ?w2 = "single_store\<lparr>batch_role_rebuilding := True, roles_needing_rebuilding := Some {1}\<rparr>"
  have a: "\<not> batch_role_rebuilding single_store"
    by (simp add: single_store_def store_defs)
  have b: "raising_body [1] ?w1 = (Some (BodyException ''bulk update failed''), ?w2)"
    by (simp add: raising_body_def rebuild_role_ancestor_list_def)
  have c: "roles_needing_rebuilding ?w2 = Some {1}"
    by simp
  show ?thesis
    using batch_release_on_every_exit_path
            [where w = single_store and body = "raising_body [1]" and w_body = ?w2
               and raised = "Some (BodyException ''bulk update failed'')"
               and accumulated = "{1}" and allow_nesting = False] a b c
    by (simp add: atomic_def engine_defs single_store_def store_defs)
qed

section \<open>\<open>get_roles_on_resource\<close> against its specification\<close>

lemma set_accessor_roles: "set (accessor_roles accessor w) = roles_held accessor w"
  by (cases accessor) (auto simp: accessor_roles_def roles_held_def)

lemma map_of_all_True:
  assumes "\<forall>(k, v) \<in> set xs. v = True"
  shows "map_of xs k = (if k \<in> fst ` set xs then Some True else None)"
proof (cases "k \<in> fst ` set xs")
  case True
  then obtain v where v: "map_of xs k = Some v"
    by (metis map_of_eq_None_iff not_Some_eq)
  then have "(k, v) \<in> set xs" by (rule map_of_SomeD)
  then have "v = True" using assms by auto
  then show ?thesis using v True by simp
next
  case False
  then show ?thesis by (simp add: map_of_eq_None_iff)
qed

text \<open>
  Claim C9. The dictionary \<open>get_roles_on_resource\<close> returns has exactly the keys
  the specification names: the \<open>role_field\<close> values of the ancestor rows whose
  ancestor is a role the accessor holds (for a user the roles it is a member of, for
  a role itself, for another object the roles bound to it) and whose content type and
  object id are the resource's; every key maps to \<open>True\<close>. The function has no
  failing branch, and an accessor that holds no role gets the empty dictionary.
\<close>

theorem roles_on_resource_correct:
  "get_roles_on_resource res accessor w rf =
     (if rf \<in> spec_roles_on_resource res accessor w then Some True else None) \<and>
   (roles_held accessor w = {} \<longrightarrow> get_roles_on_resource res accessor w = Map.empty)"
proof -
  let ?xs = "rev [(entry_role_field e, True).
                 e \<leftarrow> ancestors_table w,
                 ancestor e \<in> set (accessor_roles accessor w),
                 content_type_id e = resource_content_type res,
                 entry_object_id e = resource_id res]"
  have def: "get_roles_on_resource res accessor w = map_of ?xs"
    by (simp add: get_roles_on_resource_def Let_def)
  have vals: "\<forall>(k, v) \<in> set ?xs. v = True"
    by auto
  have keys: "fst ` set ?xs = spec_roles_on_resource res accessor w"
    by (force simp: spec_roles_on_resource_def set_accessor_roles)
  have lookup: "\<And>k. map_of ?xs k =
      (if k \<in> spec_roles_on_resource res accessor w then Some True else None)"
    using map_of_all_True [OF vals] keys by simp
  have none: "roles_held accessor w = {} \<Longrightarrow> spec_roles_on_resource res accessor w = {}"
    by (auto simp: spec_roles_on_resource_def)
  have first: "get_roles_on_resource res accessor w rf =
     (if rf \<in> spec_roles_on_resource res accessor w then Some True else None)"
    unfolding def by (rule lookup)
  have second: "roles_held accessor w = {} \<longrightarrow> get_roles_on_resource res accessor w = Map.empty"
  proof
    assume "roles_held accessor w = {}"
    then have "spec_roles_on_resource res accessor w = {}" by (rule none)
    then have "\<And>k. map_of ?xs k = None" using lookup by simp
    then show "get_roles_on_resource res accessor w = Map.empty"
      unfolding def by (intro ext)
  qed
  show ?thesis using first second by (rule conjI)
qed

theorem roles_on_resource_correct_witness:
  "get_roles_on_resource \<lparr>resource_content_type = 4, resource_id = 5\<rparr> (User 9) resource_store
       ''admin_role'' = Some True \<and>
   get_roles_on_resource \<lparr>resource_content_type = 4, resource_id = 6\<rparr> (User 9) resource_store
     = Map.empty \<and>
   get_roles_on_resource \<lparr>resource_content_type = 4, resource_id = 5\<rparr> (User 8) resource_store
     = Map.empty"
proof -
  have a: "''admin_role'' \<in> spec_roles_on_resource \<lparr>resource_content_type = 4, resource_id = 5\<rparr> (User 9) resource_store"
    by (simp add: spec_roles_on_resource_def roles_held_def resource_store_def)
  have b: "roles_held (User 8) resource_store = {}"
    by (simp add: roles_held_def resource_store_def)
  have c: "get_roles_on_resource \<lparr>resource_content_type = 4, resource_id = 6\<rparr> (User 9) resource_store
     = Map.empty"
    by (simp add: get_roles_on_resource_def accessor_roles_def resource_store_def)
  show ?thesis
    using roles_on_resource_correct [of "\<lparr>resource_content_type = 4, resource_id = 5\<rparr>" "User 9" resource_store "''admin_role''"]
      roles_on_resource_correct [of "\<lparr>resource_content_type = 4, resource_id = 5\<rparr>" "User 8" resource_store "''admin_role''"]
      a b c by simp
qed

section \<open>The closure after a parent is removed inside a cycle\<close>

lemma cycle_store_reach: "(1, x) \<in> (parent_edges cycle_store)\<^sup>* \<Longrightarrow> x = 1 \<or> x = 2"
  by (induction rule: rtrancl_induct)
     (auto simp: parent_edges_def cycle_store_def store_defs)

text \<open>
  Claim C1 does not hold of the code. In \<open>cycle_store\<close> the edge from role 1 to
  role 3 has just been removed and role 1 is rebuilt. The purge removes the rows with
  ancestor 1 only; role 1 gets the row \<open>(1, 3)\<close> back from its parent 2, which still
  holds \<open>(2, 3)\<close>, and role 2 gets it from role 1. The rebuild returns normally with a
  row \<open>(1, 3)\<close> although role 3 is not reachable from role 1.
\<close>

theorem closure_keeps_stale_row_after_parent_removal:
  "fst (simultaneous_ancestry_rebuild {1} cycle_store) = None \<and>
   ancestor_pairs (snd (simultaneous_ancestry_rebuild {1} cycle_store)) =
     [(1, 2), (1, 3), (2, 2), (2, 3), (3, 3), (1, 1), (2, 1)] \<and>
   \<not> reachable (snd (simultaneous_ancestry_rebuild {1} cycle_store)) 1 3"
proof -
  have "parents_table (snd (simultaneous_ancestry_rebuild {1} cycle_store)) = parents_table cycle_store"
    using simultaneous_ancestry_rebuild_frame [of cycle_store "{1}"] by (simp add: same_frame_def)
  then have "parent_edges (snd (simultaneous_ancestry_rebuild {1} cycle_store)) = parent_edges cycle_store"
    by (simp add: parent_edges_def)
  then have "\<not> reachable (snd (simultaneous_ancestry_rebuild {1} cycle_store)) 1 3"
    using cycle_store_reach [of 3] by (auto simp: reachable_def)
  moreover have "fst (simultaneous_ancestry_rebuild {1} cycle_store) = None"
    by (simp add: engine_defs cycle_store_def store_defs)
  moreover have "ancestor_pairs (snd (simultaneous_ancestry_rebuild {1} cycle_store)) =
     [(1, 2), (1, 3), (2, 2), (2, 3), (3, 3), (1, 1), (2, 1)]"
    by (simp add: ancestor_pairs_def engine_defs cycle_store_def store_defs)
  ultimately show ?thesis by simp
qed

section \<open>Termination of the rebuild loop\<close>

















section \<open>What the statements of a layer do to the table\<close>

lemma ancestors_layer_delete:
  "ancestors_table (snd (layer_delete ids w)) =
     [e \<leftarrow> ancestors_table w.
        descendent e \<in> ids \<longrightarrow> (descendent e, ancestor e) \<in> set (new_ancestry_pairs ids w)]"
proof -
  have "\<And>e. e \<in> set (ancestors_table w) \<Longrightarrow>
      (e \<in> set [e. c \<leftarrow> new_ancestry_pairs ids w, e \<leftarrow> ancestors_table w,
                     fst c = descendent e \<and> snd c = ancestor e])
      = ((descendent e, ancestor e) \<in> set (new_ancestry_pairs ids w))"
    by force
  then show ?thesis
    by (auto simp: layer_delete_def Let_def intro!: filter_cong)
qed

lemma in_ancestor_pairs:
  "(d, a) \<in> set (ancestor_pairs w) \<longleftrightarrow>
     (\<exists>e \<in> set (ancestors_table w). descendent e = d \<and> ancestor e = a)"
  by (auto simp: ancestor_pairs_def)

lemma ancestors_layer_insert:
  "ancestors_table (snd (layer_insert ids w)) =
     ancestors_table w @
     [c \<leftarrow> new_ancestry_list ids w.
        (descendent c, ancestor c) \<notin> set (ancestor_pairs w)]"
proof -
  have "[c \<leftarrow> new_ancestry_list ids w.
          \<not> (\<exists>e \<in> set (ancestors_table w).
                descendent e = descendent c \<and> ancestor e = ancestor c)]
      = [c \<leftarrow> new_ancestry_list ids w. (descendent c, ancestor c) \<notin> set (ancestor_pairs w)]"
    by (simp only: in_ancestor_pairs)
  then show ?thesis unfolding layer_insert_def Let_def by simp
qed

lemma in_new_ancestry_pairs:
  "(d, a) \<in> set (new_ancestry_pairs ids w) \<longleftrightarrow>
     d \<in> ids \<and>
     ((\<exists>p \<in> set (parents_table w). \<exists>e \<in> set (ancestors_table w).
          from_role_id p = d \<and> to_role_id p = descendent e \<and> ancestor e = a)
      \<or> (\<exists>r \<in> set (roles_table w). role_id r = d \<and> a = d))"
  unfolding new_ancestry_pairs_def set_remdups set_append set_concat set_map
  by (auto split: if_splits)

lemma in_new_ancestry_list:
  "c \<in> set (new_ancestry_list ids w) \<longleftrightarrow>
     (\<exists>r \<in> set (roles_table w). \<exists>a. c = role_entry r a \<and> role_id r \<in> ids \<and>
        ((\<exists>p \<in> set (parents_table w). \<exists>e \<in> set (ancestors_table w).
            from_role_id p = role_id r \<and> to_role_id p = descendent e \<and> ancestor e = a)
         \<or> a = role_id r))"
  (is "?lhs \<longleftrightarrow> ?rhs")
proof
  assume ?lhs
  then consider
    (parent) p r e where "p \<in> set (parents_table w)" "r \<in> set (roles_table w)"
      "from_role_id p = role_id r" "e \<in> set (ancestors_table w)"
      "to_role_id p = descendent e" "from_role_id p \<in> ids"
      "c = \<lparr>descendent = from_role_id p, ancestor = ancestor e,
           entry_role_field = role_field r,
           content_type_id = coalesce0 (content_type r),
           entry_object_id = coalesce0 (object_id r)\<rparr>"
  | (self) r where "r \<in> set (roles_table w)" "role_id r \<in> ids" "c = role_entry r (role_id r)"
    unfolding new_ancestry_list_def set_remdups set_append set_concat set_map role_entry_def
    by (auto split: if_splits)
  then show ?rhs
  proof cases
    case parent
    then have "c = role_entry r (ancestor e)" by (simp add: role_entry_def)
    then show ?thesis using parent by (intro bexI [of _ r] exI [of _ "ancestor e"]) auto
  next
    case self
    then show ?thesis by (intro bexI [of _ r] exI [of _ "role_id r"]) auto
  qed
next
  assume ?rhs
  then obtain r a where r: "r \<in> set (roles_table w)" "c = role_entry r a" "role_id r \<in> ids"
    and a: "(\<exists>p \<in> set (parents_table w). \<exists>e \<in> set (ancestors_table w).
            from_role_id p = role_id r \<and> to_role_id p = descendent e \<and> ancestor e = a)
         \<or> a = role_id r"
    by blast
  from a show ?lhs
  proof
    assume "\<exists>p \<in> set (parents_table w). \<exists>e \<in> set (ancestors_table w).
            from_role_id p = role_id r \<and> to_role_id p = descendent e \<and> ancestor e = a"
    then obtain p e where "p \<in> set (parents_table w)" "e \<in> set (ancestors_table w)"
      "from_role_id p = role_id r" "to_role_id p = descendent e" "ancestor e = a"
      by blast
    then show ?lhs
      unfolding new_ancestry_list_def set_remdups set_append set_concat set_map
      using r by (force simp: role_entry_def)
  next
    assume "a = role_id r"
    then show ?lhs
      unfolding new_ancestry_list_def set_remdups set_append set_concat set_map
      using r by (force simp: role_entry_def)
  qed
qed

lemma new_ancestry_list_in_layer:
  "c \<in> set (new_ancestry_list ids w) \<Longrightarrow> descendent c \<in> ids"
  by (auto simp: in_new_ancestry_list role_entry_def)

section \<open>The seed purge\<close>

lemma ancestors_children_select:
  "ancestors_table (snd (children_select ids w)) = ancestors_table w"
  by (simp add: children_select_def)

lemma children_ids_child_edges:
  "children_ids L w \<subseteq> child_edges w `` L"
  by (auto simp: children_ids_def child_edges_def)

lemma child_edges_frame: "same_frame w v \<Longrightarrow> child_edges v = child_edges w"
  by (simp add: child_edges_def same_frame_def)

lemma sweep_region_closed:
  "L \<subseteq> sweep_region ids w \<Longrightarrow> children_ids L w \<subseteq> sweep_region ids w"
proof
  fix x assume L: "L \<subseteq> sweep_region ids w" and x: "x \<in> children_ids L w"
  then obtain y where y: "y \<in> L" "(y, x) \<in> child_edges w"
    using children_ids_child_edges [of L w] by auto
  then obtain s where "s \<in> ids" "(s, y) \<in> (child_edges w)\<^sup>*"
    using L by (auto simp: sweep_region_def)
  then show "x \<in> sweep_region ids w"
    using y by (auto simp: sweep_region_def intro: rtrancl_into_rtrancl)
qed

lemma outside_layer_delete:
  assumes "L \<subseteq> R"
  shows "[e \<leftarrow> ancestors_table (snd (layer_delete L v)). descendent e \<notin> R]
       = [e \<leftarrow> ancestors_table v. descendent e \<notin> R]"
  using assms by (simp add: ancestors_layer_delete) (rule filter_cong [OF refl], auto)

lemma outside_layer_insert:
  assumes "L \<subseteq> R"
  shows "[e \<leftarrow> ancestors_table (snd (layer_insert L v)). descendent e \<notin> R]
       = [e \<leftarrow> ancestors_table v. descendent e \<notin> R]"
proof -
  have "[c \<leftarrow> new_ancestry_list L v.
          (descendent c, ancestor c) \<notin> set (ancestor_pairs v) \<and> descendent c \<notin> R] = []"
    using assms new_ancestry_list_in_layer [of _ L v] by (auto simp: filter_empty_conv)
  then show ?thesis by (simp add: ancestors_layer_insert)
qed

lemma rebuild_loop_outside_region:
  assumes "ids \<subseteq> sweep_region S w"
  shows "[e \<leftarrow> ancestors_table (snd (rebuild_loop loop_ct ids w)). descendent e \<notin> sweep_region S w]
       = [e \<leftarrow> ancestors_table w. descendent e \<notin> sweep_region S w]"
proof -
  let ?R = "sweep_region S w"
  let ?out = "\<lambda>v. [e \<leftarrow> ancestors_table v. descendent e \<notin> ?R]"
  have "(\<lambda>res. ?out (snd res) = ?out w) (rebuild_loop loop_ct ids w)"
  proof (rule rebuild_loop_rule [where I = "\<lambda>c L v. same_frame w v \<and> L \<subseteq> ?R \<and> ?out v = ?out w"])
    show "same_frame w w \<and> ids \<subseteq> ?R \<and> ?out w = ?out w"
      using assms by (simp add: same_frame_refl)
  next
    fix c L v d v1 i v2 L' v3
    assume inv: "same_frame w v \<and> L \<subseteq> ?R \<and> ?out v = ?out w"
      and d: "layer_delete L v = (d, v1)" and i: "layer_insert L v1 = (i, v2)"
      and s: "children_select L v2 = (L', v3)"
    have f2: "same_frame w v2" using inv d i by (blast intro: layer_frame)
    have f3: "same_frame w v3" using f2 children_select_frame [OF s] by (rule same_frame_trans)
    have "?out v1 = ?out v" using outside_layer_delete [of L ?R v] inv d by simp
    moreover have "?out v2 = ?out v1" using outside_layer_insert [of L ?R v1] inv i by simp
    moreover have "?out v3 = ?out v2" using ancestors_children_select [of L v2] s by simp
    moreover have "L' \<subseteq> ?R"
    proof -
      have "L' = children_ids L w"
        using s f2 by (auto simp: children_select_def children_ids_def same_frame_def)
      then show ?thesis using sweep_region_closed inv by simp
    qed
    ultimately show "same_frame w v3 \<and> L' \<subseteq> ?R \<and> ?out v3 = ?out w"
      using f3 inv by simp
  next
    fix c L v v1 v2
    assume inv: "same_frame w v \<and> L \<subseteq> ?R \<and> ?out v = ?out w"
      and d: "layer_delete L v = (0, v1)" and i: "layer_insert L v1 = (0, v2)"
    have "?out v1 = ?out v" using outside_layer_delete [of L ?R v] inv d by simp
    moreover have "?out v2 = ?out v1" using outside_layer_insert [of L ?R v1] inv i by simp
    ultimately show "?out (snd (None, v2)) = ?out w" using inv by simp
  qed simp_all
  then show ?thesis .
qed


lemma rebuild_loop_statements:
  "\<exists>later. executed (snd (rebuild_loop loop_ct ids w)) = later @ executed w \<and>
     (\<forall>s \<in> set later. \<forall>L. s \<noteq> SeedPurge L)"
proof -
  let ?I = "\<lambda>v. \<exists>later. executed v = later @ executed w \<and>
     (\<forall>s \<in> set later. \<forall>L. s \<noteq> SeedPurge L)"
  have "(\<lambda>res. ?I (snd res)) (rebuild_loop loop_ct ids w)"
  proof (rule rebuild_loop_rule [where I = "\<lambda>c L v. ?I v"])
    show "?I w" by simp
  next
    fix c L v d v1 i v2 L' v3
    assume inv: "?I v"
      and d: "layer_delete L v = (d, v1)" and i: "layer_insert L v1 = (i, v2)"
      and s: "children_select L v2 = (L', v3)"
    obtain later where later: "executed v = later @ executed w"
      "\<forall>s \<in> set later. \<forall>L. s \<noteq> SeedPurge L"
      using inv by blast
    have "executed v3 = (ChildrenSelect L L' # LayerInsert L i # LayerDelete L d # later) @ executed w"
      using d i s later(1) by (auto simp: layer_delete_def layer_insert_def children_select_def Let_def)
    then show "?I v3" using later(2) by (intro exI conjI) (assumption, simp)
  next
    fix c L v v1 v2
    assume inv: "?I v"
      and d: "layer_delete L v = (0, v1)" and i: "layer_insert L v1 = (0, v2)"
    obtain later where later: "executed v = later @ executed w"
      "\<forall>s \<in> set later. \<forall>L. s \<noteq> SeedPurge L"
      using inv by blast
    have "executed v2 = (LayerInsert L 0 # LayerDelete L 0 # later) @ executed w"
      using d i later(1) by (auto simp: layer_delete_def layer_insert_def Let_def)
    then have "?I v2" using later(2) by (intro exI conjI) (assumption, simp)
    then show "?I (snd (None, v2))" by simp
  qed simp_all
  then show ?thesis .
qed

text \<open>
  Claim C8. With a non-empty seed the rebuild is the layer loop run on the table
  from which every row with an ancestor in the seed has been deleted, whatever its
  descendent (self rows and rows of other descendents alike). The purge is the first
  statement sent and the only purge: no later statement is one. The layers do not
  repeat it on their own role sets: of the rows whose descendent lies outside the
  roles the loop can sweep, the final table holds exactly those the purge left, in
  their order, also when their ancestor is in a later layer.
\<close>

theorem seed_purge_once_before_loop:
  assumes "ids \<noteq> {}" and "simultaneous_ancestry_rebuild ids w = (r, w')"
  shows "(r, w') = rebuild_loop 0 ids
            (w\<lparr>ancestors_table := [e \<leftarrow> ancestors_table w. ancestor e \<notin> ids],
               executed := SeedPurge ids # executed w\<rparr>) \<and>
         (\<exists>later. executed w' = later @ SeedPurge ids # executed w \<and>
             (\<forall>s \<in> set later. \<forall>L. s \<noteq> SeedPurge L)) \<and>
         [e \<leftarrow> ancestors_table w'. descendent e \<notin> sweep_region ids w]
           = [e \<leftarrow> ancestors_table w. descendent e \<notin> sweep_region ids w \<and> ancestor e \<notin> ids]"
proof -
  let ?w0 = "seed_purge ids w"
  have run: "rebuild_loop 0 ids ?w0 = (r, w')"
    using assms by (simp add: simultaneous_ancestry_rebuild_def)
  have region: "sweep_region ids ?w0 = sweep_region ids w"
    by (simp add: sweep_region_def child_edges_def seed_purge_def)
  have "ids \<subseteq> sweep_region ids ?w0"
    by (auto simp: sweep_region_def)
  from rebuild_loop_outside_region [OF this, of 0]
  have "[e \<leftarrow> ancestors_table w'. descendent e \<notin> sweep_region ids w]
      = [e \<leftarrow> ancestors_table ?w0. descendent e \<notin> sweep_region ids w]"
    using run region by simp
  also have "\<dots> = [e \<leftarrow> ancestors_table w. descendent e \<notin> sweep_region ids w \<and> ancestor e \<notin> ids]"
    by (simp add: seed_purge_def conj_commute)
  finally have outside: "[e \<leftarrow> ancestors_table w'. descendent e \<notin> sweep_region ids w]
      = [e \<leftarrow> ancestors_table w. descendent e \<notin> sweep_region ids w \<and> ancestor e \<notin> ids]" .
  have log: "\<exists>later. executed w' = later @ SeedPurge ids # executed w \<and>
             (\<forall>s \<in> set later. \<forall>L. s \<noteq> SeedPurge L)"
    using rebuild_loop_statements [of 0 ids ?w0] run by (simp add: seed_purge_def)
  show ?thesis using run outside log by (simp add: seed_purge_def)
qed

lemma stale_store_region: "sweep_region {2} stale_store = {1, 2}"
proof
  have "(2, x) \<in> (child_edges stale_store)\<^sup>* \<Longrightarrow> x = 1 \<or> x = 2" for x
    by (induction rule: rtrancl_induct)
       (auto simp: child_edges_def stale_store_def chain_store_def store_defs)
  then show "sweep_region {2} stale_store \<subseteq> {1, 2}"
    by (auto simp: sweep_region_def)
next
  have "(2, 1) \<in> child_edges stale_store"
    unfolding child_edges_def
    by (rule CollectI, rule exI [of _ "mk_edge 1 2"])
       (simp add: stale_store_def chain_store_def store_defs)
  then show "{1, 2} \<subseteq> sweep_region {2} stale_store"
    by (auto simp: sweep_region_def)
qed

theorem seed_purge_once_before_loop_witness:
  "[e \<leftarrow> ancestors_table (snd (simultaneous_ancestry_rebuild {2} stale_store)).
      descendent e \<notin> sweep_region {2} stale_store] = [mk_entry 3 3, mk_entry 3 1] \<and>
   (\<exists>later. executed (snd (simultaneous_ancestry_rebuild {2} stale_store)) = later @ [SeedPurge {2}])"
  using seed_purge_once_before_loop
    [of "{2}" stale_store "fst (simultaneous_ancestry_rebuild {2} stale_store)"
        "snd (simultaneous_ancestry_rebuild {2} stale_store)"]
  by (simp add: stale_store_region)
     (auto simp: stale_store_def chain_store_def store_defs)

section \<open>The self rows\<close>

lemma row_count_layer_delete_self:
  assumes "r \<in> set (roles_table v)"
  shows "row_count (snd (layer_delete L v)) (role_id r) (role_id r) = row_count v (role_id r) (role_id r)"
proof -
  have "role_id r \<in> L \<Longrightarrow> (role_id r, role_id r) \<in> set (new_ancestry_pairs L v)"
    using assms by (auto simp: in_new_ancestry_pairs)
  then have "[e \<leftarrow> ancestors_table (snd (layer_delete L v)).
               descendent e = role_id r \<and> ancestor e = role_id r]
           = [e \<leftarrow> ancestors_table v. descendent e = role_id r \<and> ancestor e = role_id r]"
    by (simp add: ancestors_layer_delete) (rule filter_cong [OF refl], auto)
  then show ?thesis by (simp add: row_count_def)
qed

lemma row_count_pos_iff:
  "0 < row_count v d a \<longleftrightarrow> (d, a) \<in> set (ancestor_pairs v)"
  by (auto simp: row_count_def in_ancestor_pairs filter_empty_conv)

lemma length_filter_singleton:
  assumes "distinct xs" and "x \<in> set xs" and "\<And>y. y \<in> set xs \<Longrightarrow> P y \<longleftrightarrow> y = x"
  shows "length (filter P xs) = 1"
proof -
  have "set (filter P xs) = {x}" using assms(2,3) by auto
  moreover have "distinct (filter P xs)" using assms(1) by simp
  ultimately show ?thesis
    by (metis One_nat_def card.empty card_insert_disjoint distinct_card empty_iff finite.emptyI)
qed

lemma distinct_new_ancestry_list: "distinct (new_ancestry_list L v)"
  by (simp add: new_ancestry_list_def)

lemma row_count_layer_insert:
  "row_count (snd (layer_insert L v)) d a =
     row_count v d a +
     length [c \<leftarrow> new_ancestry_list L v.
               (descendent c, ancestor c) \<notin> set (ancestor_pairs v) \<and>
               descendent c = d \<and> ancestor c = a]"
  by (simp add: row_count_def ancestors_layer_insert conj_commute conj_left_commute)

lemma row_count_layer_insert_self:
  assumes pk: "distinct (map role_id (roles_table v))" and r: "r \<in> set (roles_table v)"
  shows "row_count (snd (layer_insert L v)) (role_id r) (role_id r) =
           (if row_count v (role_id r) (role_id r) = 0 \<and> role_id r \<in> L then 1
            else row_count v (role_id r) (role_id r))"
proof -
  let ?R = "role_id r"
  let ?new = "[c \<leftarrow> new_ancestry_list L v.
               (descendent c, ancestor c) \<notin> set (ancestor_pairs v) \<and>
               descendent c = ?R \<and> ancestor c = ?R]"
  show ?thesis
  proof (cases "row_count v ?R ?R = 0 \<and> ?R \<in> L")
    case True
    then have absent: "(?R, ?R) \<notin> set (ancestor_pairs v)"
      using row_count_pos_iff [of v ?R ?R] by simp
    have mem: "role_entry r ?R \<in> set (new_ancestry_list L v)"
      using r True by (auto simp: in_new_ancestry_list)
    have only: "(descendent y, ancestor y) \<notin> set (ancestor_pairs v) \<and>
               descendent y = ?R \<and> ancestor y = ?R \<longleftrightarrow> y = role_entry r ?R"
      if y: "y \<in> set (new_ancestry_list L v)" for y
    proof
      assume a: "(descendent y, ancestor y) \<notin> set (ancestor_pairs v) \<and>
               descendent y = ?R \<and> ancestor y = ?R"
      obtain r' a' where r': "r' \<in> set (roles_table v)" "y = role_entry r' a'"
        using y by (auto simp: in_new_ancestry_list)
      then have "role_id r' = ?R" "a' = ?R" using a by (simp_all add: role_entry_def)
      moreover have "r' = r"
        using pk r r'(1) \<open>role_id r' = ?R\<close> by (meson distinct_map inj_onD)
      ultimately show "y = role_entry r ?R" using r'(2) by simp
    next
      assume "y = role_entry r ?R"
      then show "(descendent y, ancestor y) \<notin> set (ancestor_pairs v) \<and>
               descendent y = ?R \<and> ancestor y = ?R"
        using absent by (simp add: role_entry_def)
    qed
    have "length ?new = 1"
      by (rule length_filter_singleton [OF distinct_new_ancestry_list mem only])
    then show ?thesis using True by (simp add: row_count_layer_insert)
  next
    case False
    have "?new = []"
    proof (cases "?R \<in> L")
      case True
      then have "(?R, ?R) \<in> set (ancestor_pairs v)"
        using False row_count_pos_iff [of v ?R ?R] by simp
      then show ?thesis by (auto simp: filter_empty_conv)
    next
      case notin: False
      have "descendent c \<noteq> ?R" if "c \<in> set (new_ancestry_list L v)" for c
        using new_ancestry_list_in_layer [OF that] notin by auto
      then show ?thesis by (simp add: filter_empty_conv)
    qed
    then show ?thesis using False by (simp add: row_count_layer_insert)
  qed
qed

lemma row_count_children_select:
  "row_count (snd (children_select L v)) d a = row_count v d a"
  by (simp add: row_count_def children_select_def)

lemma layer_self_rows:
  assumes pk: "distinct (map role_id (roles_table v))"
    and inv: "\<forall>r \<in> set (roles_table v).
        row_count v (role_id r) (role_id r) = 1 \<or>
        row_count v (role_id r) (role_id r) = 0 \<and> role_id r \<in> L"
    and d: "layer_delete L v = (d, v1)" and i: "layer_insert L v1 = (i, v2)"
  shows "\<forall>r \<in> set (roles_table v). row_count v2 (role_id r) (role_id r) = 1"
proof
  fix r assume r: "r \<in> set (roles_table v)"
  have f1: "same_frame v v1" using d by (rule layer_delete_frame)
  then have r1: "r \<in> set (roles_table v1)" and pk1: "distinct (map role_id (roles_table v1))"
    using r pk by (simp_all add: same_frame_def)
  have "row_count v1 (role_id r) (role_id r) = row_count v (role_id r) (role_id r)"
    using row_count_layer_delete_self [OF r, of L] d by simp
  moreover have "row_count v2 (role_id r) (role_id r) =
           (if row_count v1 (role_id r) (role_id r) = 0 \<and> role_id r \<in> L then 1
            else row_count v1 (role_id r) (role_id r))"
    using row_count_layer_insert_self [OF pk1 r1, of L] i by simp
  ultimately show "row_count v2 (role_id r) (role_id r) = 1"
    using inv r by auto
qed

lemma rebuild_loop_self_rows:
  assumes pk: "distinct (map role_id (roles_table w))"
    and inv: "\<forall>r \<in> set (roles_table w).
        row_count w (role_id r) (role_id r) = 1 \<or>
        row_count w (role_id r) (role_id r) = 0 \<and> role_id r \<in> ids"
    and run: "rebuild_loop loop_ct ids w = (None, w')"
  shows "\<forall>r \<in> set (roles_table w). row_count w' (role_id r) (role_id r) = 1"
proof -
  let ?one = "\<lambda>v. \<forall>r \<in> set (roles_table w). row_count v (role_id r) (role_id r) = 1"
  let ?J = "\<lambda>L v. \<forall>r \<in> set (roles_table w).
        row_count v (role_id r) (role_id r) = 1 \<or>
        row_count v (role_id r) (role_id r) = 0 \<and> role_id r \<in> L"
  have "(\<lambda>res. fst res = None \<longrightarrow> ?one (snd res)) (rebuild_loop loop_ct ids w)"
  proof (rule rebuild_loop_rule [where I = "\<lambda>c L v. same_frame w v \<and> ?J L v"])
    show "same_frame w w \<and> ?J ids w" using inv by (simp add: same_frame_refl)
  next
    fix c L v d v1 i v2 L' v3
    assume I: "same_frame w v \<and> ?J L v"
      and d: "layer_delete L v = (d, v1)" and i: "layer_insert L v1 = (i, v2)"
      and s: "children_select L v2 = (L', v3)"
    have eq: "roles_table v = roles_table w" using I by (simp add: same_frame_def)
    have "?one v2"
      using layer_self_rows [OF _ _ d i, of ] pk I eq by simp
    then have "?one v3" using row_count_children_select [of L v2] s by simp
    moreover have "same_frame w v3"
      using I d i s by (blast intro: layer_frame same_frame_trans children_select_frame)
    ultimately show "same_frame w v3 \<and> ?J L' v3" by simp
  next
    fix c v
    assume "same_frame w v \<and> ?J {} v"
    then show "fst (None, v) = None \<longrightarrow> ?one (snd (None, v))" by simp
  next
    fix c L v v1 v2
    assume I: "same_frame w v \<and> ?J L v"
      and d: "layer_delete L v = (0, v1)" and i: "layer_insert L v1 = (0, v2)"
    have eq: "roles_table v = roles_table w" using I by (simp add: same_frame_def)
    have "?one v2"
      using layer_self_rows [OF _ _ d i] pk I eq by simp
    then show "fst (None, v2) = None \<longrightarrow> ?one (snd (None, v2))" by simp
  qed simp
  then show ?thesis using run by simp
qed

lemma row_count_seed_purge:
  "row_count (seed_purge ids w) d a = (if a \<in> ids then 0 else row_count w d a)"
proof -
  have "[e \<leftarrow> ancestors_table w. ancestor e \<notin> ids \<and> descendent e = d \<and> ancestor e = a]
      = (if a \<in> ids then [] else [e \<leftarrow> ancestors_table w. descendent e = d \<and> ancestor e = a])"
    by (auto simp: filter_empty_conv intro!: filter_cong)
  then show ?thesis by (simp add: row_count_def seed_purge_def conj_commute conj_left_commute)
qed

text \<open>
  Claim C2. The self invariant is kept and, for the seed, established by every
  rebuild that returns normally: when the role ids are unique (primary key) and every
  role outside the seed has exactly one self row before, then afterwards every role,
  seeded or not, has exactly one row with descendent = ancestor = itself. The roles
  of the seed need no self row before (a role just created has none): the purge
  removes whatever self rows they have and the first layer inserts one.
\<close>

theorem self_rows_after_rebuild:
  assumes "distinct (map role_id (roles_table w))"
    and "\<forall>r \<in> set (roles_table w).
           role_id r \<notin> ids \<longrightarrow> row_count w (role_id r) (role_id r) = 1"
    and "simultaneous_ancestry_rebuild ids w = (None, w')"
  shows "roles_table w' = roles_table w \<and>
         (\<forall>r \<in> set (roles_table w'). row_count w' (role_id r) (role_id r) = 1)"
proof -
  have frame: "roles_table w' = roles_table w"
    using simultaneous_ancestry_rebuild_frame [of w ids] assms(3) by (simp add: same_frame_def)
  show ?thesis
  proof (cases "ids = {}")
    case True
    then show ?thesis using assms by (simp add: simultaneous_ancestry_rebuild_def)
  next
    case False
    let ?w0 = "seed_purge ids w"
    have run: "rebuild_loop 0 ids ?w0 = (None, w')"
      using assms(3) False by (simp add: simultaneous_ancestry_rebuild_def)
    have rt: "roles_table ?w0 = roles_table w" by (simp add: seed_purge_def)
    have "\<forall>r \<in> set (roles_table ?w0). row_count w' (role_id r) (role_id r) = 1"
    proof (rule rebuild_loop_self_rows [OF _ _ run])
      show "distinct (map role_id (roles_table ?w0))" using assms(1) rt by simp
      show "\<forall>r \<in> set (roles_table ?w0).
        row_count ?w0 (role_id r) (role_id r) = 1 \<or>
        row_count ?w0 (role_id r) (role_id r) = 0 \<and> role_id r \<in> ids"
        using assms(2) rt by (simp add: row_count_seed_purge)
    qed
    then show ?thesis using frame rt by simp
  qed
qed

theorem self_rows_after_rebuild_witness:
  "row_count (snd (simultaneous_ancestry_rebuild {2} chain_store)) 1 1 = 1 \<and>
   row_count (snd (simultaneous_ancestry_rebuild {2} chain_store)) 2 2 = 1 \<and>
   row_count (snd (simultaneous_ancestry_rebuild {2} chain_store)) 3 3 = 1"
proof -
  have pk: "distinct (map role_id (roles_table chain_store))"
    by (simp add: chain_store_def store_defs)
  have pre: "\<forall>r \<in> set (roles_table chain_store).
           role_id r \<notin> {2} \<longrightarrow> row_count chain_store (role_id r) (role_id r) = 1"
    by (simp add: row_count_def chain_store_def store_defs)
  have "fst (simultaneous_ancestry_rebuild {2} chain_store) = None"
    by (simp add: engine_defs chain_store_def store_defs)
  then have run: "simultaneous_ancestry_rebuild {2} chain_store =
      (None, snd (simultaneous_ancestry_rebuild {2} chain_store))"
    by (simp add: prod_eq_iff)
  have roles: "roles_table chain_store = [mk_role 1, mk_role 2, mk_role 3]"
    by (simp add: chain_store_def store_defs)
  let ?w' = "snd (simultaneous_ancestry_rebuild {2} chain_store)"
  have "\<forall>r \<in> set [mk_role 1, mk_role 2, mk_role 3]. row_count ?w' (role_id r) (role_id r) = 1"
    using self_rows_after_rebuild [OF pk pre run] roles by metis
  then show ?thesis by (simp add: mk_role_def)
qed

section \<open>Idempotence of the rebuild\<close>

subsection \<open>Rows by ancestor\<close>

lemma same_graph_refl: "same_graph v v"
  by (simp add: same_graph_def)

lemma same_graph_sym: "same_graph u v \<Longrightarrow> same_graph v u"
  by (simp add: same_graph_def)

lemma same_graph_trans: "same_graph u v \<Longrightarrow> same_graph v x \<Longrightarrow> same_graph u x"
  by (simp add: same_graph_def)

lemma same_frame_graph: "same_frame u v \<Longrightarrow> same_graph u v"
  by (simp add: same_frame_def same_graph_def)

lemma pairs_part:
  "P a \<Longrightarrow> (q, a) \<in> set (ancestor_pairs v) \<longleftrightarrow>
     (\<exists>e \<in># part P v. descendent e = q \<and> ancestor e = a)"
  by (auto simp: in_ancestor_pairs part_def)

lemma dep_pairs:
  "part P u = part P v \<Longrightarrow> P a \<Longrightarrow>
   (q, a) \<in> set (ancestor_pairs u) \<longleftrightarrow> (q, a) \<in> set (ancestor_pairs v)"
  using pairs_part [of P a q u] pairs_part [of P a q v] by simp

lemma dep_supported:
  assumes "same_graph u v" "part P u = part P v" "P a"
  shows "supported u d a \<longleftrightarrow> supported v d a"
  using assms(1) dep_pairs [OF assms(2,3)] by (simp add: supported_def same_graph_def)

lemma dep_candidate:
  assumes "same_graph u v" "part P u = part P v" "P a"
  shows "candidate u r a \<longleftrightarrow> candidate v r a"
  using assms(1) dep_pairs [OF assms(2,3)] by (simp add: candidate_def same_graph_def)

lemma set_part: "set_mset (part P v) = {e \<in> set (ancestors_table v). P (ancestor e)}"
  by (auto simp: part_def)

lemma dep_stable:
  assumes g: "same_graph u v" and p: "part P u = part P v"
  shows "settled P u y \<longleftrightarrow> settled P v y"
proof -
  have rows: "{e \<in> set (ancestors_table u). P (ancestor e)}
            = {e \<in> set (ancestors_table v). P (ancestor e)}"
    using p set_part [of P u] set_part [of P v] by simp
  have roles: "roles_table u = roles_table v" using g by (simp add: same_graph_def)
  have "(\<forall>e \<in> set (ancestors_table u).
          descendent e = y \<and> P (ancestor e) \<longrightarrow> supported u y (ancestor e))
      \<longleftrightarrow> (\<forall>e \<in> set (ancestors_table v).
          descendent e = y \<and> P (ancestor e) \<longrightarrow> supported v y (ancestor e))"
    using rows dep_supported [OF g p] by blast
  moreover have "(\<forall>r \<in> set (roles_table u). \<forall>a.
        role_id r = y \<and> P a \<and> candidate u r a \<longrightarrow> (y, a) \<in> set (ancestor_pairs u))
      \<longleftrightarrow> (\<forall>r \<in> set (roles_table v). \<forall>a.
        role_id r = y \<and> P a \<and> candidate v r a \<longrightarrow> (y, a) \<in> set (ancestor_pairs v))"
    using roles dep_candidate [OF g p] dep_pairs [OF p] by metis
  ultimately show ?thesis by (simp add: settled_def)
qed

lemma stable_split:
  "settled (\<lambda>a. True) v y \<longleftrightarrow> settled P v y \<and> settled (\<lambda>a. \<not> P a) v y"
  unfolding settled_def by blast

lemma parts_partition: "mset (ancestors_table v) = part P v + part (\<lambda>a. \<not> P a) v"
  by (simp add: part_def)

subsection \<open>The statements of a layer on multisets of rows\<close>

lemma in_ancestor_pairs_flip:
  "(d, a) \<in> set (ancestor_pairs w) \<longleftrightarrow>
     (\<exists>e \<in> set (ancestors_table w). d = descendent e \<and> ancestor e = a)"
  by (auto simp: ancestor_pairs_def)

lemma in_pairs_supported:
  "(d, a) \<in> set (new_ancestry_pairs L v) \<longleftrightarrow> d \<in> L \<and> supported v d a"
proof -
  have "((\<exists>p \<in> set (parents_table v). \<exists>e \<in> set (ancestors_table v).
          from_role_id p = d \<and> to_role_id p = descendent e \<and> ancestor e = a)
      \<or> (\<exists>r \<in> set (roles_table v). role_id r = d \<and> a = d)) = supported v d a"
    unfolding supported_def in_ancestor_pairs_flip by auto
  then show ?thesis by (simp add: in_new_ancestry_pairs)
qed

lemma in_list_candidate:
  "c \<in> set (new_ancestry_list L v) \<longleftrightarrow>
     (\<exists>r \<in> set (roles_table v). \<exists>a. c = role_entry r a \<and> role_id r \<in> L \<and> candidate v r a)"
proof -
  have "\<And>r a. ((\<exists>p \<in> set (parents_table v). \<exists>e \<in> set (ancestors_table v).
            from_role_id p = role_id r \<and> to_role_id p = descendent e \<and> ancestor e = a)
         \<or> a = role_id r) = candidate v r a"
    unfolding candidate_def in_ancestor_pairs_flip by auto
  then show ?thesis by (simp add: in_new_ancestry_list)
qed

lemma table_layer_delete:
  "ancestors_table (snd (layer_delete L v)) =
     [e \<leftarrow> ancestors_table v. descendent e \<in> L \<longrightarrow> supported v (descendent e) (ancestor e)]"
  by (simp add: ancestors_layer_delete in_pairs_supported)

lemma graph_layer_delete: "same_graph v (snd (layer_delete L v))"
  using snd_layer_delete_frame [of v L] by (rule same_frame_graph)

lemma graph_layer_insert: "same_graph v (snd (layer_insert L v))"
  using snd_layer_insert_frame [of v L] by (rule same_frame_graph)

lemma graph_layer: "same_graph v (layer L v)"
  unfolding layer_def using graph_layer_delete graph_layer_insert by (rule same_graph_trans)

lemma mset_layer_insert:
  "mset (ancestors_table (snd (layer_insert L v))) =
     mset (ancestors_table v) +
     mset_set {c \<in> set (new_ancestry_list L v).
                 (descendent c, ancestor c) \<notin> set (ancestor_pairs v)}"
proof -
  let ?new = "[c \<leftarrow> new_ancestry_list L v. (descendent c, ancestor c) \<notin> set (ancestor_pairs v)]"
  have "distinct ?new" by (simp add: distinct_new_ancestry_list)
  then have "mset ?new = mset_set (set ?new)" by (rule mset_set_set [symmetric])
  moreover have "set ?new = {c \<in> set (new_ancestry_list L v).
                 (descendent c, ancestor c) \<notin> set (ancestor_pairs v)}"
    by auto
  ultimately have "mset ?new = mset_set {c \<in> set (new_ancestry_list L v).
                 (descendent c, ancestor c) \<notin> set (ancestor_pairs v)}"
    by (simp only:)
  moreover have "mset (ancestors_table (snd (layer_insert L v))) =
      mset (ancestors_table v) + mset ?new"
    by (simp only: ancestors_layer_insert mset_append)
  ultimately show ?thesis by (simp only:)
qed

lemma part_layer_delete:
  "part P (snd (layer_delete L v)) =
     filter_mset (\<lambda>e. descendent e \<in> L \<longrightarrow> supported v (descendent e) (ancestor e)) (part P v)"
  unfolding part_def table_layer_delete mset_filter filter_filter_mset
  by (rule filter_mset_cong) auto

lemma part_layer_insert:
  "part P (snd (layer_insert L v)) =
     part P v +
     mset_set {c \<in> set (new_ancestry_list L v).
                 (descendent c, ancestor c) \<notin> set (ancestor_pairs v) \<and> P (ancestor c)}"
proof -
  have fin: "finite {c \<in> set (new_ancestry_list L v).
                 (descendent c, ancestor c) \<notin> set (ancestor_pairs v)}"
    by simp
  have "filter_mset (\<lambda>e. P (ancestor e))
          (mset_set {c \<in> set (new_ancestry_list L v).
                 (descendent c, ancestor c) \<notin> set (ancestor_pairs v)})
      = mset_set {c \<in> {c \<in> set (new_ancestry_list L v).
                 (descendent c, ancestor c) \<notin> set (ancestor_pairs v)}. P (ancestor c)}"
    using fin by (rule filter_mset_mset_set)
  moreover have "{c \<in> {c \<in> set (new_ancestry_list L v).
                 (descendent c, ancestor c) \<notin> set (ancestor_pairs v)}. P (ancestor c)}
      = {c \<in> set (new_ancestry_list L v).
                 (descendent c, ancestor c) \<notin> set (ancestor_pairs v) \<and> P (ancestor c)}"
    by auto
  ultimately show ?thesis
    unfolding part_def mset_layer_insert by simp
qed

lemma part_delete_cong:
  assumes g: "same_graph u v" and p: "part P u = part P v"
  shows "part P (snd (layer_delete L u)) = part P (snd (layer_delete L v))"
proof -
  have "\<And>e. e \<in># part P v \<Longrightarrow>
      (descendent e \<in> L \<longrightarrow> supported u (descendent e) (ancestor e))
    = (descendent e \<in> L \<longrightarrow> supported v (descendent e) (ancestor e))"
    using dep_supported [OF g p] by (simp add: set_part)
  then show ?thesis
    unfolding part_layer_delete p by (auto intro: filter_mset_cong)
qed

lemma new_rows_cong:
  assumes g: "same_graph u v" and p: "part P u = part P v"
  shows "{c \<in> set (new_ancestry_list L u).
            (descendent c, ancestor c) \<notin> set (ancestor_pairs u) \<and> P (ancestor c)}
       = {c \<in> set (new_ancestry_list L v).
            (descendent c, ancestor c) \<notin> set (ancestor_pairs v) \<and> P (ancestor c)}"
proof -
  have roles: "roles_table u = roles_table v" using g by (simp add: same_graph_def)
  have mem: "c \<in> set (new_ancestry_list L u) \<longleftrightarrow> c \<in> set (new_ancestry_list L v)"
    if "P (ancestor c)" for c
  proof -
    have "\<And>r a. c = role_entry r a \<Longrightarrow> candidate u r a = candidate v r a"
      using dep_candidate [OF g p] that by (simp add: role_entry_def)
    then show ?thesis unfolding in_list_candidate roles by metis
  qed
  have abs: "(descendent c, ancestor c) \<in> set (ancestor_pairs u)
         \<longleftrightarrow> (descendent c, ancestor c) \<in> set (ancestor_pairs v)"
    if "P (ancestor c)" for c
    using dep_pairs [OF p that] by simp
  show ?thesis using mem abs by auto
qed

lemma part_insert_cong:
  assumes g: "same_graph u v" and p: "part P u = part P v"
  shows "part P (snd (layer_insert L u)) = part P (snd (layer_insert L v))"
  unfolding part_layer_insert new_rows_cong [OF g p] p ..

lemma part_layer_cong:
  assumes g: "same_graph u v" and p: "part P u = part P v"
  shows "part P (layer L u) = part P (layer L v)"
proof -
  have "same_graph (snd (layer_delete L u)) (snd (layer_delete L v))"
    using g graph_layer_delete [of u L] graph_layer_delete [of v L]
    by (simp add: same_graph_def)
  then show ?thesis
    unfolding layer_def using part_delete_cong [OF g p] by (rule part_insert_cong)
qed

lemma part_delete_stable:
  assumes "\<forall>y \<in> L. settled P v y"
  shows "part P (snd (layer_delete L v)) = part P v"
proof -
  have "\<And>e. e \<in># part P v \<Longrightarrow>
      descendent e \<in> L \<longrightarrow> supported v (descendent e) (ancestor e)"
    using assms by (auto simp: set_part settled_def)
  then show ?thesis unfolding part_layer_delete by (simp add: filter_mset_eq_conv)
qed

lemma part_insert_stable:
  assumes st: "\<forall>y \<in> L. settled P v y" and g: "same_graph v v1" and p: "part P v1 = part P v"
  shows "part P (snd (layer_insert L v1)) = part P v"
proof -
  have empty: "{c \<in> set (new_ancestry_list L v1).
            (descendent c, ancestor c) \<notin> set (ancestor_pairs v1) \<and> P (ancestor c)} = {}"
  proof -
    have False if c: "c \<in> set (new_ancestry_list L v1)"
        and ab: "(descendent c, ancestor c) \<notin> set (ancestor_pairs v1)"
        and Pc: "P (ancestor c)" for c
    proof -
      obtain r a where r: "r \<in> set (roles_table v1)" "c = role_entry r a" "role_id r \<in> L"
          "candidate v1 r a"
        using c unfolding in_list_candidate by blast
      have a: "ancestor c = a" "descendent c = role_id r" using r(2) by (simp_all add: role_entry_def)
      have "candidate v r a"
        using dep_candidate [OF same_graph_sym [OF g] p, of a r] Pc a r(4) by simp
      moreover have "r \<in> set (roles_table v)" using r(1) g by (simp add: same_graph_def)
      ultimately have "(role_id r, a) \<in> set (ancestor_pairs v)"
        using st r(3) Pc a by (auto simp: settled_def)
      then have "(role_id r, a) \<in> set (ancestor_pairs v1)"
        using dep_pairs [OF p, of a "role_id r"] Pc a by simp
      then show False using ab a by simp
    qed
    then show ?thesis by blast
  qed
  show ?thesis unfolding part_layer_insert empty p by simp
qed

lemma part_layer_stable:
  assumes "\<forall>y \<in> L. settled P v y"
  shows "part P (layer L v) = part P v"
  unfolding layer_def
  using assms graph_layer_delete part_delete_stable [OF assms]
  by (rule part_insert_stable)

lemma length_filter_all:
  "length xs - length (filter K xs) = 0 \<longleftrightarrow> (\<forall>x \<in> set xs. K x)"
proof (induction xs)
  case Nil
  then show ?case by simp
next
  case (Cons x xs)
  have "length (filter K xs) \<le> length xs" by simp
  then show ?case using Cons by (auto simp: Suc_diff_le)
qed

lemma fst_layer_delete:
  "fst (layer_delete L v) =
     length (ancestors_table v) - length (ancestors_table (snd (layer_delete L v)))"
  by (simp add: layer_delete_def Let_def)

lemma delete_ct_zero:
  "fst (layer_delete L v) = 0 \<longleftrightarrow>
     (\<forall>e \<in> set (ancestors_table v).
        descendent e \<in> L \<longrightarrow> supported v (descendent e) (ancestor e))"
  unfolding fst_layer_delete table_layer_delete by (rule length_filter_all)

lemma insert_ct_zero:
  "fst (layer_insert L v) = 0 \<longleftrightarrow>
     (\<forall>c \<in> set (new_ancestry_list L v). (descendent c, ancestor c) \<in> set (ancestor_pairs v))"
proof -
  have "fst (layer_insert L v) =
      length [c \<leftarrow> new_ancestry_list L v.
                \<not> (\<exists>e \<in> set (ancestors_table v).
                      descendent e = descendent c \<and> ancestor e = ancestor c)]"
    by (simp add: layer_insert_def Let_def)
  then show ?thesis by (simp add: filter_empty_conv in_ancestor_pairs)
qed

lemma part_all: "part (\<lambda>a. True) v = mset (ancestors_table v)"
  by (simp add: part_def)

lemma work_zero:
  "layer_work L v = 0 \<longleftrightarrow> (\<forall>y \<in> L. settled (\<lambda>a. True) v y)"
proof
  assume w: "layer_work L v = 0"
  let ?v1 = "snd (layer_delete L v)"
  have d: "\<forall>e \<in> set (ancestors_table v).
        descendent e \<in> L \<longrightarrow> supported v (descendent e) (ancestor e)"
    using w by (simp add: layer_work_def delete_ct_zero)
  have i: "\<forall>c \<in> set (new_ancestry_list L ?v1).
        (descendent c, ancestor c) \<in> set (ancestor_pairs ?v1)"
    using w by (simp add: layer_work_def insert_ct_zero)
  have p: "part (\<lambda>a. True) ?v1 = part (\<lambda>a. True) v"
    using d unfolding part_layer_delete by (simp add: filter_mset_eq_conv set_part)
  have g: "same_graph v ?v1" by (rule graph_layer_delete)
  show "\<forall>y \<in> L. settled (\<lambda>a. True) v y"
  proof
    fix y assume y: "y \<in> L"
    have "(role_id r, a) \<in> set (ancestor_pairs v)"
      if r: "r \<in> set (roles_table v)" "role_id r = y" "candidate v r a" for r a
    proof -
      have "candidate ?v1 r a"
        using dep_candidate [OF same_graph_sym [OF g] p, where a = a and r = r] r(3) by simp
      moreover have "r \<in> set (roles_table ?v1)" using r(1) g by (simp add: same_graph_def)
      ultimately have "role_entry r a \<in> set (new_ancestry_list L ?v1)"
        using r(2) y unfolding in_list_candidate by blast
      then have "(role_id r, a) \<in> set (ancestor_pairs ?v1)"
        using i by (auto simp: role_entry_def)
      then show ?thesis using dep_pairs [OF p, where a = a and q = "role_id r"] by simp
    qed
    then show "settled (\<lambda>a. True) v y" using d y by (auto simp: settled_def)
  qed
next
  assume st: "\<forall>y \<in> L. settled (\<lambda>a. True) v y"
  let ?v1 = "snd (layer_delete L v)"
  have d: "fst (layer_delete L v) = 0"
    unfolding delete_ct_zero using st by (auto simp: settled_def)
  have p1: "part (\<lambda>a. True) ?v1 = part (\<lambda>a. True) v"
    using st by (rule part_delete_stable)
  have "part (\<lambda>a. True) (snd (layer_insert L ?v1)) = part (\<lambda>a. True) v"
    using st graph_layer_delete p1 by (rule part_insert_stable)
  then have "mset (ancestors_table (snd (layer_insert L ?v1))) = mset (ancestors_table ?v1)"
    using p1 by (simp add: part_all)
  then have "length (ancestors_table (snd (layer_insert L ?v1))) = length (ancestors_table ?v1)"
    by (metis size_mset)
  then have "fst (layer_insert L ?v1) = 0"
    by (simp add: layer_insert_def Let_def)
  then show "layer_work L v = 0" using d by (simp add: layer_work_def)
qed

lemma rows_layer_delete_outside:
  "descendent e \<notin> L \<Longrightarrow>
   e \<in> set (ancestors_table (snd (layer_delete L v))) \<longleftrightarrow> e \<in> set (ancestors_table v)"
  by (simp add: table_layer_delete)

lemma rows_layer_insert:
  "e \<in> set (ancestors_table (snd (layer_insert L v))) \<longleftrightarrow>
     e \<in> set (ancestors_table v) \<or>
     (e \<in> set (new_ancestry_list L v) \<and>
      (descendent e, ancestor e) \<notin> set (ancestor_pairs v))"
  by (simp add: ancestors_layer_insert)

lemma rows_layer_outside:
  assumes "descendent e \<notin> L"
  shows "e \<in> set (ancestors_table (layer L v)) \<longleftrightarrow> e \<in> set (ancestors_table v)"
  using assms new_ancestry_list_in_layer [of e L "snd (layer_delete L v)"]
  by (auto simp: layer_def rows_layer_insert rows_layer_delete_outside)

lemma pairs_layer_outside:
  assumes "q \<notin> L"
  shows "(q, a) \<in> set (ancestor_pairs (layer L v)) \<longleftrightarrow> (q, a) \<in> set (ancestor_pairs v)"
  unfolding in_ancestor_pairs using assms rows_layer_outside [of _ L v] by blast

lemma pairs_layer_delete_outside:
  assumes "q \<notin> L"
  shows "(q, a) \<in> set (ancestor_pairs (snd (layer_delete L v)))
       \<longleftrightarrow> (q, a) \<in> set (ancestor_pairs v)"
  unfolding in_ancestor_pairs using assms rows_layer_delete_outside [of _ L v] by blast

lemma supported_by_parents:
  assumes "same_graph u v"
    and "\<forall>p \<in> set (parents_table v). from_role_id p = y \<longrightarrow>
           ((to_role_id p, a) \<in> set (ancestor_pairs u)
              \<longleftrightarrow> (to_role_id p, a) \<in> set (ancestor_pairs v))"
  shows "supported u y a \<longleftrightarrow> supported v y a"
  using assms unfolding supported_def same_graph_def by auto

lemma candidate_by_parents:
  assumes "same_graph u v"
    and "\<forall>p \<in> set (parents_table v). from_role_id p = role_id r \<longrightarrow>
           ((to_role_id p, a) \<in> set (ancestor_pairs u)
              \<longleftrightarrow> (to_role_id p, a) \<in> set (ancestor_pairs v))"
  shows "candidate u r a \<longleftrightarrow> candidate v r a"
  using assms unfolding candidate_def same_graph_def by auto

lemma candidate_supported:
  "r \<in> set (roles_table v) \<Longrightarrow> candidate v r a \<Longrightarrow> supported v (role_id r) a"
  unfolding candidate_def supported_def by auto

lemma stable_after_layer:
  assumes np: "\<forall>p \<in> set (parents_table v). from_role_id p = y \<longrightarrow> to_role_id p \<notin> L"
    and y: "y \<in> L"
  shows "settled P (layer L v) y"
proof -
  let ?v1 = "snd (layer_delete L v)"
  let ?v2 = "layer L v"
  have g1: "same_graph ?v1 v" using graph_layer_delete by (rule same_graph_sym)
  have g2: "same_graph ?v2 v" using graph_layer by (rule same_graph_sym)
  have g21: "same_graph ?v2 ?v1" using g2 same_graph_sym [OF g1] by (rule same_graph_trans)
  have sup1: "supported ?v1 y a \<longleftrightarrow> supported v y a" for a
    using g1 np pairs_layer_delete_outside [of _ L _ v]
    by (intro supported_by_parents) auto
  have sup2: "supported ?v2 y a \<longleftrightarrow> supported v y a" for a
    using g2 np pairs_layer_outside [of _ L _ v]
    by (intro supported_by_parents) auto
  have cand21: "candidate ?v2 r a \<longleftrightarrow> candidate ?v1 r a" if "role_id r = y" for r a
  proof (rule candidate_by_parents [OF g21])
    show "\<forall>p \<in> set (parents_table ?v1). from_role_id p = role_id r \<longrightarrow>
           ((to_role_id p, a) \<in> set (ancestor_pairs ?v2)
              \<longleftrightarrow> (to_role_id p, a) \<in> set (ancestor_pairs ?v1))"
      using np that g1 pairs_layer_outside [of _ L a v] pairs_layer_delete_outside [of _ L a v]
      by (simp add: same_graph_def)
  qed
  have rows: "supported ?v2 y (ancestor e)"
    if e: "e \<in> set (ancestors_table ?v2)" "descendent e = y" for e
  proof -
    consider (old) "e \<in> set (ancestors_table ?v1)"
      | (new) "e \<in> set (new_ancestry_list L ?v1)"
      using e(1) by (auto simp: layer_def rows_layer_insert)
    then show ?thesis
    proof cases
      case old
      then have "supported v y (ancestor e)"
        using e(2) y by (auto simp: table_layer_delete)
      then show ?thesis by (simp add: sup2)
    next
      case new
      then obtain r a where r: "r \<in> set (roles_table ?v1)" "e = role_entry r a"
          "candidate ?v1 r a"
        unfolding in_list_candidate by blast
      then have "role_id r = y" "ancestor e = a" using e(2) by (simp_all add: role_entry_def)
      then have "supported ?v1 y (ancestor e)"
        using candidate_supported [OF r(1,3)] by simp
      then show ?thesis by (simp add: sup1 sup2)
    qed
  qed
  have cands: "(y, a) \<in> set (ancestor_pairs ?v2)"
    if r: "r \<in> set (roles_table ?v2)" "role_id r = y" "candidate ?v2 r a" for r a
  proof -
    have c1: "candidate ?v1 r a" using cand21 [OF r(2)] r(3) by simp
    have r1: "r \<in> set (roles_table ?v1)" using r(1) g21 by (simp add: same_graph_def)
    have mem: "role_entry r a \<in> set (new_ancestry_list L ?v1)"
      unfolding in_list_candidate using r1 c1 r(2) y by blast
    show ?thesis
    proof (cases "(y, a) \<in> set (ancestor_pairs ?v1)")
      case True
      then show ?thesis
        by (auto simp: in_ancestor_pairs layer_def rows_layer_insert)
    next
      case False
      then have "role_entry r a \<in> set (ancestors_table ?v2)"
        using mem r(2) by (simp add: layer_def rows_layer_insert role_entry_def)
      then show ?thesis
        unfolding in_ancestor_pairs using r(2)
        by (intro bexI [of _ "role_entry r a"]) (simp_all add: role_entry_def)
    qed
  qed
  show ?thesis unfolding settled_def using rows cands by blast
qed

lemma stable_outside_layer:
  assumes np: "\<forall>p \<in> set (parents_table v). from_role_id p = y \<longrightarrow> to_role_id p \<notin> L"
    and y: "y \<notin> L"
  shows "settled P (layer L v) y \<longleftrightarrow> settled P v y"
proof -
  let ?v2 = "layer L v"
  have g2: "same_graph ?v2 v" using graph_layer by (rule same_graph_sym)
  have sup: "supported ?v2 y a \<longleftrightarrow> supported v y a" for a
    using g2 np pairs_layer_outside [of _ L _ v]
    by (intro supported_by_parents) auto
  have cand: "candidate ?v2 r a \<longleftrightarrow> candidate v r a" if "role_id r = y" for r a
    using g2 np that pairs_layer_outside [of _ L _ v]
    by (intro candidate_by_parents) auto
  have rows: "e \<in> set (ancestors_table ?v2) \<longleftrightarrow> e \<in> set (ancestors_table v)"
    if "descendent e = y" for e
    using that y by (intro rows_layer_outside) simp
  have pairs: "(y, a) \<in> set (ancestor_pairs ?v2) \<longleftrightarrow> (y, a) \<in> set (ancestor_pairs v)" for a
    using y by (rule pairs_layer_outside)
  have roles: "roles_table ?v2 = roles_table v" using g2 by (simp add: same_graph_def)
  have "(\<forall>e \<in> set (ancestors_table ?v2).
          descendent e = y \<and> P (ancestor e) \<longrightarrow> supported v y (ancestor e))
      \<longleftrightarrow> (\<forall>e \<in> set (ancestors_table v).
          descendent e = y \<and> P (ancestor e) \<longrightarrow> supported v y (ancestor e))"
    using rows by auto
  then show ?thesis unfolding settled_def roles by (simp add: sup cand pairs cong: conj_cong)
qed

lemma nth_layer_0: "nth_layer w S 0 = S"
  by (simp add: nth_layer_def)

lemma nth_layer_Suc: "nth_layer w S (Suc k) = children_ids (nth_layer w S k) w"
  by (simp add: nth_layer_def)

lemma children_ids_graph: "same_graph u v \<Longrightarrow> children_ids L u = children_ids L v"
  by (simp add: children_ids_def same_graph_def)

lemma nth_layer_graph: "same_graph u v \<Longrightarrow> nth_layer u S k = nth_layer v S k"
  by (induction k) (simp_all add: nth_layer_0 nth_layer_Suc children_ids_graph)

lemma graph_sweep: "same_graph v (sweep k S v)"
proof (induction k)
  case 0
  show ?case by (simp add: same_graph_refl)
next
  case (Suc k)
  then show ?case using graph_layer by (auto intro: same_graph_trans)
qed

lemma in_children_ids:
  "x \<in> children_ids L v \<longleftrightarrow>
     (\<exists>r \<in> set (roles_table v). role_id r \<in> L \<and>
        (\<exists>p \<in> set (parents_table v). to_role_id p = role_id r \<and> from_role_id p = x))"
  by (auto simp: children_ids_def)

lemma no_parent_in_layer:
  assumes fk: "parents_in_roles v" and y: "y \<notin> children_ids L v"
  shows "\<forall>p \<in> set (parents_table v). from_role_id p = y \<longrightarrow> to_role_id p \<notin> L"
proof (intro ballI impI notI)
  fix p assume p: "p \<in> set (parents_table v)" "from_role_id p = y" "to_role_id p \<in> L"
  then obtain r where "r \<in> set (roles_table v)" "role_id r = to_role_id p"
    using fk by (auto simp: parents_in_roles_def)
  then have "from_role_id p \<in> children_ids L v"
    unfolding in_children_ids using p by (intro bexI [of _ r] conjI bexI [of _ p]) simp_all
  then show False using y p(2) by simp
qed

lemma sweep_stable:
  assumes fk: "parents_in_roles v"
    and base: "\<forall>y \<in> G. y \<notin> S \<longrightarrow> settled P v y"
  shows "y \<in> G \<or> (\<exists>j<k. y \<in> nth_layer v S j) \<Longrightarrow> y \<notin> nth_layer v S k \<Longrightarrow>
         settled P (sweep k S v) y"
proof (induction k arbitrary: y)
  case 0
  then show ?case using base by (simp add: nth_layer_0)
next
  case (Suc k)
  let ?L = "nth_layer v S k"
  let ?u = "sweep k S v"
  have g: "same_graph v ?u" by (rule graph_sweep)
  have "y \<notin> children_ids ?L v" using Suc.prems(2) by (simp add: nth_layer_Suc)
  then have "\<forall>p \<in> set (parents_table v). from_role_id p = y \<longrightarrow> to_role_id p \<notin> ?L"
    using fk by (intro no_parent_in_layer)
  then have np: "\<forall>p \<in> set (parents_table ?u). from_role_id p = y \<longrightarrow> to_role_id p \<notin> ?L"
    using g by (simp add: same_graph_def)
  show ?case
  proof (cases "y \<in> ?L")
    case True
    then show ?thesis using stable_after_layer [OF np] by simp
  next
    case False
    have "y \<in> G \<or> (\<exists>j<k. y \<in> nth_layer v S j)"
      using Suc.prems(1) False less_Suc_eq by auto
    then have "settled P ?u y" using False by (rule Suc.IH)
    then show ?thesis using stable_outside_layer [OF np False] by simp
  qed
qed

lemma sweep_stationary:
  assumes "\<forall>y. settled P (sweep k S v) y"
  shows "part P (sweep (k + j) S v) = part P (sweep k S v)"
proof (induction j)
  case 0
  show ?case by simp
next
  case (Suc j)
  have g: "same_graph (sweep (k + j) S v) (sweep k S v)"
    using graph_sweep [of v "k + j" S] graph_sweep [of v k S]
    by (simp add: same_graph_def)
  have "\<forall>y. settled P (sweep (k + j) S v) y"
    using assms dep_stable [OF g Suc.IH] by simp
  then have "part P (layer (nth_layer v S (k + j)) (sweep (k + j) S v))
      = part P (sweep (k + j) S v)"
    by (intro part_layer_stable) simp
  then show ?case using Suc.IH by simp
qed

lemma sweep_parts_cong:
  assumes g: "same_graph u v" and p: "part P u = part P v"
  shows "part P (sweep k S u) = part P (sweep k S v)"
proof (induction k)
  case 0
  show ?case using p by simp
next
  case (Suc k)
  have "same_graph (sweep k S u) (sweep k S v)"
    using g graph_sweep [of u k S] graph_sweep [of v k S] by (simp add: same_graph_def)
  then have "part P (layer (nth_layer v S k) (sweep k S u))
      = part P (layer (nth_layer v S k) (sweep k S v))"
    using Suc.IH by (rule part_layer_cong)
  then show ?case by (simp add: nth_layer_graph [OF g])
qed

lemma sweep_part_frozen:
  assumes st: "\<forall>j<m. \<forall>y \<in> nth_layer v S j. settled P v y"
  shows "k \<le> m \<Longrightarrow> part P (sweep k S v) = part P v"
proof (induction k)
  case 0
  show ?case by simp
next
  case (Suc k)
  then have IH: "part P (sweep k S v) = part P v" by simp
  have g: "same_graph (sweep k S v) v" using graph_sweep by (rule same_graph_sym)
  have "\<forall>y \<in> nth_layer v S k. settled P (sweep k S v) y"
    using st Suc.prems dep_stable [OF g IH] by (auto simp: Suc_le_eq)
  then have "part P (layer (nth_layer v S k) (sweep k S v)) = part P (sweep k S v)"
    by (rule part_layer_stable)
  then show ?case using IH by simp
qed

lemma layer_work_cong:
  assumes g: "same_graph u v" and m: "mset (ancestors_table u) = mset (ancestors_table v)"
  shows "layer_work L u = 0 \<longleftrightarrow> layer_work L v = 0"
proof -
  have p: "part (\<lambda>a. True) u = part (\<lambda>a. True) v" using m by (simp add: part_all)
  show ?thesis unfolding work_zero using dep_stable [OF g p] by simp
qed

lemma mset_layer_cong:
  assumes g: "same_graph u v" and m: "mset (ancestors_table u) = mset (ancestors_table v)"
  shows "mset (ancestors_table (layer L u)) = mset (ancestors_table (layer L v))"
proof -
  have p: "part (\<lambda>a. True) u = part (\<lambda>a. True) v" using m by (simp add: part_all)
  show ?thesis using part_layer_cong [OF g p, of L] by (simp add: part_all)
qed

lemma loop_step_facts:
  assumes d: "layer_delete L v = (d, v1)" and i: "layer_insert L v1 = (i, v2)"
  shows "v2 = layer L v" and "layer_work L v = d + i"
  using d i by (simp_all add: layer_def layer_work_def)

lemma loop_trace: "\<exists>m. loop_outcome S v0 m (rebuild_loop 0 S v0)"
proof (rule rebuild_loop_rule [where
      I = "\<lambda>c L v. c \<le> 1001 \<and> same_graph v0 v \<and>
             mset (ancestors_table v) = mset (ancestors_table (sweep c S v0)) \<and>
             L = nth_layer v0 S c \<and>
             (\<forall>j<c. nth_layer v0 S j \<noteq> {} \<and> work_at v0 S j \<noteq> 0)"
      and Q = "\<lambda>res. \<exists>m. loop_outcome S v0 m res"])
  show "0 \<le> (1001::nat) \<and> same_graph v0 v0 \<and>
        mset (ancestors_table v0) = mset (ancestors_table (sweep 0 S v0)) \<and>
        S = nth_layer v0 S 0 \<and>
        (\<forall>j<0. nth_layer v0 S j \<noteq> {} \<and> work_at v0 S j \<noteq> 0)"
    by (simp add: same_graph_refl nth_layer_0)
next
  fix c L v d v1 i v2 L' v3
  assume inv: "c \<le> 1001 \<and> same_graph v0 v \<and>
             mset (ancestors_table v) = mset (ancestors_table (sweep c S v0)) \<and>
             L = nth_layer v0 S c \<and>
             (\<forall>j<c. nth_layer v0 S j \<noteq> {} \<and> work_at v0 S j \<noteq> 0)"
    and ne: "L \<noteq> {}" and c: "c \<le> 1000"
    and d: "layer_delete L v = (d, v1)" and i: "layer_insert L v1 = (i, v2)"
    and nz: "\<not> (i = 0 \<and> d = 0)"
    and s: "children_select L v2 = (L', v3)"
  have v2: "v2 = layer L v" and w: "layer_work L v = d + i"
    using loop_step_facts [OF d i] by simp_all
  have gsw: "same_graph v (sweep c S v0)"
    using inv graph_sweep [of v0 c S] by (simp add: same_graph_def)
  have g2: "same_graph v0 v2"
    using inv graph_layer [of v L] v2 by (auto intro: same_graph_trans)
  have g3: "same_graph v0 v3"
    using g2 same_frame_graph [OF children_select_frame [OF s]] by (rule same_graph_trans)
  have m3: "mset (ancestors_table v3) = mset (ancestors_table (sweep (Suc c) S v0))"
    using mset_layer_cong [OF gsw, of L] inv v2 ancestors_children_select [of L v2] s
    by simp
  have L': "L' = nth_layer v0 S (Suc c)"
    using s inv children_ids_graph [OF same_graph_sym [OF g2], of L]
    by (simp add: children_select_def nth_layer_Suc)
  have "work_at v0 S c \<noteq> 0"
    using layer_work_cong [OF gsw, of L] inv w nz by (auto simp: work_at_def)
  then have "\<forall>j<Suc c. nth_layer v0 S j \<noteq> {} \<and> work_at v0 S j \<noteq> 0"
    using inv ne by (auto simp: less_Suc_eq)
  then show "c + 1 \<le> 1001 \<and> same_graph v0 v3 \<and>
             mset (ancestors_table v3) = mset (ancestors_table (sweep (c + 1) S v0)) \<and>
             L' = nth_layer v0 S (c + 1) \<and>
             (\<forall>j<c + 1. nth_layer v0 S j \<noteq> {} \<and> work_at v0 S j \<noteq> 0)"
    using c g3 m3 L' by simp
next
  fix c v
  assume inv: "c \<le> 1001 \<and> same_graph v0 v \<and>
             mset (ancestors_table v) = mset (ancestors_table (sweep c S v0)) \<and>
             {} = nth_layer v0 S c \<and>
             (\<forall>j<c. nth_layer v0 S j \<noteq> {} \<and> work_at v0 S j \<noteq> 0)"
  then have "loop_outcome S v0 c (None, v)"
    by (auto simp: loop_outcome_def)
  then show "\<exists>m. loop_outcome S v0 m (None, v)" ..
next
  fix c L v
  assume inv: "c \<le> 1001 \<and> same_graph v0 v \<and>
             mset (ancestors_table v) = mset (ancestors_table (sweep c S v0)) \<and>
             L = nth_layer v0 S c \<and>
             (\<forall>j<c. nth_layer v0 S j \<noteq> {} \<and> work_at v0 S j \<noteq> 0)"
    and ne: "L \<noteq> {}" and c: "1000 < c"
  have c1001: "c = 1001" using inv c by simp
  then have "loop_outcome S v0 c (Some InfiniteLoopDetected, v)"
    using inv ne by (auto simp: loop_outcome_def)
  then show "\<exists>m. loop_outcome S v0 m (Some InfiniteLoopDetected, v)" ..
next
  fix c L v v1 v2
  assume inv: "c \<le> 1001 \<and> same_graph v0 v \<and>
             mset (ancestors_table v) = mset (ancestors_table (sweep c S v0)) \<and>
             L = nth_layer v0 S c \<and>
             (\<forall>j<c. nth_layer v0 S j \<noteq> {} \<and> work_at v0 S j \<noteq> 0)"
    and ne: "L \<noteq> {}" and c: "c \<le> 1000"
    and d: "layer_delete L v = (0, v1)" and i: "layer_insert L v1 = (0, v2)"
  have v2: "v2 = layer L v" and w: "layer_work L v = 0"
    using loop_step_facts [OF d i] by simp_all
  have gsw: "same_graph v (sweep c S v0)"
    using inv graph_sweep [of v0 c S] by (simp add: same_graph_def)
  have g2: "same_graph v0 v2"
    using inv graph_layer [of v L] v2 by (auto intro: same_graph_trans)
  have m2: "mset (ancestors_table v2) = mset (ancestors_table (sweep (Suc c) S v0))"
    using mset_layer_cong [OF gsw, of L] inv v2 by simp
  have w0: "work_at v0 S c = 0"
    using layer_work_cong [OF gsw, of L] inv w by (simp add: work_at_def)
  have "loop_outcome S v0 (Suc c) (None, v2)"
    unfolding loop_outcome_def using c g2 m2 w0 inv ne by (auto simp: less_Suc_eq)
  then show "\<exists>m. loop_outcome S v0 m (None, v2)" ..
qed

lemma part_mset_cong:
  "mset (ancestors_table u) = mset (ancestors_table v) \<Longrightarrow> part P u = part P v"
  by (simp add: part_def)

lemma graph_seed_purge: "same_graph w (seed_purge S w)"
  using seed_purge_frame by (rule same_frame_graph)

lemma part_seed_purge_in: "part (\<lambda>a. a \<in> S) (seed_purge S w) = {#}"
  by (simp add: part_def seed_purge_def filter_filter_mset)

lemma part_seed_purge_out: "part (\<lambda>a. a \<notin> S) (seed_purge S w) = part (\<lambda>a. a \<notin> S) w"
  by (simp add: part_def seed_purge_def filter_filter_mset)

lemma parents_in_roles_graph: "same_graph u v \<Longrightarrow> parents_in_roles u \<Longrightarrow> parents_in_roles v"
  by (simp add: parents_in_roles_def same_graph_def)

lemma settled_empty_part:
  assumes "part (\<lambda>a. a \<in> S) v = {#}" and "y \<notin> S"
  shows "settled (\<lambda>a. a \<in> S) v y"
proof -
  have none: "\<And>e. e \<in> set (ancestors_table v) \<Longrightarrow> ancestor e \<notin> S"
    using assms(1) set_part [of "\<lambda>a. a \<in> S" v] by auto
  then have "\<And>q a. a \<in> S \<Longrightarrow> (q, a) \<notin> set (ancestor_pairs v)"
    by (auto simp: in_ancestor_pairs)
  then show ?thesis using none assms(2) by (auto simp: settled_def candidate_def)
qed

lemma final_settled:
  assumes fk: "parents_in_roles v"
    and out: "loop_outcome S v m (None, w1)"
  shows "\<forall>j<m. \<forall>y \<in> nth_layer v S j. settled (\<lambda>a. True) w1 y"
proof (intro allI impI ballI)
  fix j y assume j: "j < m" and y: "y \<in> nth_layer v S j"
  have g1: "same_graph v w1" and m1: "mset (ancestors_table w1) = mset (ancestors_table (sweep m S v))"
    using out by (simp_all add: loop_outcome_def)
  have swept: "\<And>k y. (\<exists>j<k. y \<in> nth_layer v S j) \<Longrightarrow> y \<notin> nth_layer v S k \<Longrightarrow>
      settled (\<lambda>a. True) (sweep k S v) y"
    using sweep_stable [OF fk, of "{}" S "\<lambda>a. True"] by simp
  have "nth_layer v S m = {} \<or> 0 < m \<and> work_at v S (m - 1) = 0"
    using out by (simp add: loop_outcome_def)
  then show "settled (\<lambda>a. True) w1 y"
  proof
    assume "nth_layer v S m = {}"
    then have "settled (\<lambda>a. True) (sweep m S v) y"
      using swept [of m y] j y by auto
    moreover have "same_graph w1 (sweep m S v)"
      using g1 graph_sweep [of v m S] by (simp add: same_graph_def)
    ultimately show ?thesis
      using dep_stable [OF _ part_mset_cong [OF m1]] by simp
  next
    assume "0 < m \<and> work_at v S (m - 1) = 0"
    then obtain k where k: "m = Suc k" and w0: "work_at v S k = 0"
      by (cases m) auto
    let ?u = "sweep k S v"
    have inlayer: "\<forall>y \<in> nth_layer v S k. settled (\<lambda>a. True) ?u y"
      using w0 by (simp add: work_at_def work_zero)
    have "settled (\<lambda>a. True) ?u y"
    proof (cases "y \<in> nth_layer v S k")
      case True
      then show ?thesis using inlayer by simp
    next
      case False
      then have "j < k" using j y k by (cases "j = k") auto
      then show ?thesis using swept [of k y] y False by auto
    qed
    moreover have "part (\<lambda>a. True) (sweep m S v) = part (\<lambda>a. True) ?u"
      using part_layer_stable [OF inlayer] k by simp
    then have "part (\<lambda>a. True) w1 = part (\<lambda>a. True) ?u"
      using part_mset_cong [OF m1, of "\<lambda>a. True"] by simp
    moreover have "same_graph w1 ?u"
      using g1 graph_sweep [of v k S] by (simp add: same_graph_def)
    ultimately show ?thesis using dep_stable by blast
  qed
qed

lemma second_loop:
  assumes fk: "parents_in_roles v"
    and pin: "part (\<lambda>a. a \<in> S) v = {#}"
    and out1: "loop_outcome S v m1 (None, w1)"
    and g': "same_graph v v'"
    and pin': "part (\<lambda>a. a \<in> S) v' = {#}"
    and pout': "part (\<lambda>a. a \<notin> S) v' = part (\<lambda>a. a \<notin> S) w1"
    and out2: "loop_outcome S v' m2 (r2, w2)"
  shows "r2 = None \<and> mset (ancestors_table w2) = mset (ancestors_table w1)"
proof -
  let ?In = "\<lambda>a. a \<in> S" and ?Out = "\<lambda>a. a \<notin> S"
  let ?L = "nth_layer v S"
  let ?U = "\<lambda>k. sweep k S v" and ?V = "\<lambda>k. sweep k S v'"
  have L': "nth_layer v' S k = ?L k" for k
    using nth_layer_graph [OF g'] by simp
  have g1: "same_graph v w1"
    and M1: "mset (ancestors_table w1) = mset (ancestors_table (?U m1))"
    and ne1: "\<forall>j<m1. ?L j \<noteq> {}"
    and m1: "m1 \<le> 1001"
    and end1: "?L m1 = {} \<or> 0 < m1 \<and> work_at v S (m1 - 1) = 0"
    using out1 by (simp_all add: loop_outcome_def)
  have M2: "mset (ancestors_table w2) = mset (ancestors_table (?V m2))"
    and ne2: "\<forall>j<m2. ?L j \<noteq> {}"
    and nz2: "\<forall>j. Suc j < m2 \<longrightarrow> work_at v' S j \<noteq> 0"
    and end2: "r2 = None \<and> (?L m2 = {} \<or> 0 < m2 \<and> work_at v' S (m2 - 1) = 0)
        \<or> r2 = Some InfiniteLoopDetected \<and> m2 = 1001 \<and> ?L m2 \<noteq> {} \<and>
          work_at v' S 1000 \<noteq> 0"
    using out2 by (simp_all add: loop_outcome_def L')
  have gUV: "same_graph (?U k) (?V k)" for k
    using g' graph_sweep [of v k S] graph_sweep [of v' k S] by (simp add: same_graph_def)
  have gVw: "same_graph (?V k) w1" for k
    using g' g1 graph_sweep [of v' k S] by (simp add: same_graph_def)
  have gv'w: "same_graph v' w1" using g' g1 by (simp add: same_graph_def)
  \<comment> \<open>the rows with an ancestor in the seed develop alike in both runs\<close>
  have inparts: "part ?In (?U k) = part ?In (?V k)" for k
    using sweep_parts_cong [OF g', of ?In k S] pin pin' by simp
  \<comment> \<open>after the first run every role of a layer it ran is settled\<close>
  have settled1: "\<forall>j<m1. \<forall>y \<in> ?L j. settled (\<lambda>a. True) w1 y"
    using fk out1 by (rule final_settled)
  have settled_out: "\<forall>j<m1. \<forall>y \<in> ?L j. settled ?Out w1 y"
    using settled1 stable_split [of w1 _ ?In] by simp
  have "\<forall>j<m1. \<forall>y \<in> nth_layer v' S j. settled ?Out v' y"
    using settled_out dep_stable [OF gv'w pout'] by (simp add: L')
  then have frozen: "part ?Out (?V k) = part ?Out w1" if "k \<le> m1" for k
    using sweep_part_frozen [of m1 v' S ?Out k] that pout' by simp
  \<comment> \<open>the second run works in a layer only on rows with an ancestor in the seed\<close>
  have work2: "work_at v' S j = 0 \<longleftrightarrow> (\<forall>y \<in> ?L j. settled ?In (?U j) y)" if j: "j < m1" for j
  proof -
    have "settled ?Out (?V j) y" if "y \<in> ?L j" for y
      using settled_out j that dep_stable [OF gVw frozen [of j]] by simp
    moreover have "settled ?In (?V j) y \<longleftrightarrow> settled ?In (?U j) y" for y
      using dep_stable [OF gUV inparts] by simp
    ultimately show ?thesis
      unfolding work_at_def work_zero L' using stable_split [of "?V j" _ ?In] by auto
  qed
  have work12: "work_at v' S j = 0" if "j < m1" "work_at v S j = 0" for j
  proof -
    have "\<forall>y \<in> ?L j. settled (\<lambda>a. True) (?U j) y"
      using that(2) by (simp add: work_at_def work_zero)
    then show ?thesis using work2 [OF that(1)] stable_split [of "?U j" _ ?In] by simp
  qed
  have le: "m2 \<le> m1"
  proof (rule ccontr)
    assume "\<not> m2 \<le> m1"
    then have lt: "m1 < m2" by simp
    then have "?L m1 \<noteq> {}" using ne2 by simp
    then have e: "0 < m1" "work_at v S (m1 - 1) = 0" using end1 by auto
    then have "work_at v' S (m1 - 1) = 0" using work12 [of "m1 - 1"] by simp
    moreover have "Suc (m1 - 1) < m2" using e(1) lt by simp
    ultimately show False using nz2 by blast
  qed
  have r2: "r2 = None"
  proof (rule ccontr)
    assume "r2 \<noteq> None"
    then have bad: "m2 = 1001" "?L m2 \<noteq> {}" "work_at v' S 1000 \<noteq> 0"
      using end2 by auto
    then have "m1 = 1001" using le m1 by simp
    then have "work_at v S 1000 = 0" using end1 bad by auto
    then have "work_at v' S 1000 = 0" using work12 [of 1000] \<open>m1 = 1001\<close> by simp
    then show False using bad(3) by simp
  qed
  have in_eq: "part ?In (?V m2) = part ?In (?U m1)"
  proof -
    have "?L m2 = {} \<or> 0 < m2 \<and> work_at v' S (m2 - 1) = 0"
      using end2 r2 by simp
    then show ?thesis
    proof
      assume "?L m2 = {}"
      then have "m2 = m1" using le ne1 by (cases "m2 = m1") auto
      then show ?thesis using inparts by simp
    next
      assume "0 < m2 \<and> work_at v' S (m2 - 1) = 0"
      then obtain k where k: "m2 = Suc k" and w0: "work_at v' S k = 0"
        by (cases m2) auto
      have k1: "k < m1" using k le by simp
      have inlayer: "\<forall>y \<in> ?L k. settled ?In (?U k) y"
        using work2 [OF k1] w0 by simp
      have "\<forall>y \<in> UNIV. y \<notin> S \<longrightarrow> settled ?In v y"
        using settled_empty_part [OF pin] by simp
      then have "\<And>y. y \<notin> ?L k \<Longrightarrow> settled ?In (?U k) y"
        using sweep_stable [OF fk, of UNIV S ?In _ k] by simp
      then have all: "\<forall>y. settled ?In (?U k) y" using inlayer by blast
      have "part ?In (?U (k + (m1 - k))) = part ?In (?U k)"
        using all by (rule sweep_stationary)
      moreover have "part ?In (?U (k + 1)) = part ?In (?U k)"
        using all by (rule sweep_stationary)
      ultimately have "part ?In (?U m1) = part ?In (?U m2)"
        using k k1 by simp
      then show ?thesis using inparts by simp
    qed
  qed
  have "mset (ancestors_table w2) = part ?In (?V m2) + part ?Out (?V m2)"
    using M2 parts_partition [of "?V m2" ?In] by simp
  also have "\<dots> = part ?In (?U m1) + part ?Out w1"
    using in_eq frozen [OF le] by simp
  also have "\<dots> = part ?In w1 + part ?Out w1"
    using part_mset_cong [OF M1, of ?In] by simp
  also have "\<dots> = mset (ancestors_table w1)"
    using parts_partition [of w1 ?In] by simp
  finally show ?thesis using r2 by simp
qed

text \<open>
  A rebuild that returns normally, run again: the second run returns normally and the
  table has the same rows.
\<close>

lemma rebuild_twice:
  assumes fk: "parents_in_roles w"
    and run1: "simultaneous_ancestry_rebuild S w = (None, w1)"
  shows "\<exists>w2. simultaneous_ancestry_rebuild S w1 = (None, w2) \<and>
           mset (ancestors_table w2) = mset (ancestors_table w1)"
proof (cases "S = {}")
  case True
  then show ?thesis using run1 by (simp add: simultaneous_ancestry_rebuild_def)
next
  case False
  let ?v = "seed_purge S w" and ?v' = "seed_purge S w1"
  have loop1: "rebuild_loop 0 S ?v = (None, w1)"
    using run1 False by (simp add: simultaneous_ancestry_rebuild_def)
  obtain m1 where out1: "loop_outcome S ?v m1 (None, w1)"
    using loop_trace [of S ?v] loop1 by auto
  obtain r2 w2 where loop2: "rebuild_loop 0 S ?v' = (r2, w2)"
    by (cases "rebuild_loop 0 S ?v'")
  obtain m2 where out2: "loop_outcome S ?v' m2 (r2, w2)"
    using loop_trace [of S ?v'] loop2 by auto
  have gv: "same_graph w ?v" by (rule graph_seed_purge)
  have fkv: "parents_in_roles ?v" using gv fk by (rule parents_in_roles_graph)
  have "same_graph ?v w1" using out1 by (simp add: loop_outcome_def)
  then have g': "same_graph ?v ?v'"
    using graph_seed_purge [of w1 S] by (rule same_graph_trans)
  have "r2 = None \<and> mset (ancestors_table w2) = mset (ancestors_table w1)"
    using fkv part_seed_purge_in out1 g' part_seed_purge_in part_seed_purge_out out2
    by (rule second_loop)
  then show ?thesis using loop2 False by (simp add: simultaneous_ancestry_rebuild_def)
qed

subsection \<open>The outcome of a rebuild depends on the graph and the rows only\<close>

lemma sweep_mset_cong:
  assumes "same_graph u v" and "mset (ancestors_table u) = mset (ancestors_table v)"
  shows "mset (ancestors_table (sweep k S u)) = mset (ancestors_table (sweep k S v))"
  using sweep_parts_cong [OF assms(1), of "\<lambda>a. True" k S] assms(2) by (simp add: part_all)

lemma work_at_cong:
  assumes g: "same_graph u v" and m: "mset (ancestors_table u) = mset (ancestors_table v)"
  shows "work_at u S j = 0 \<longleftrightarrow> work_at v S j = 0"
proof -
  have "same_graph (sweep j S u) (sweep j S v)"
    using g graph_sweep [of u j S] graph_sweep [of v j S] by (simp add: same_graph_def)
  then show ?thesis
    unfolding work_at_def nth_layer_graph [OF g]
    using sweep_mset_cong [OF g m] by (rule layer_work_cong)
qed

lemma outcome_not_both:
  assumes g: "same_graph u v" and m: "mset (ancestors_table u) = mset (ancestors_table v)"
    and u: "loop_outcome S u mu (None, wu)"
    and v: "loop_outcome S v mv (Some e, wv)"
  shows False
proof -
  have L: "nth_layer u S k = nth_layer v S k" for k by (rule nth_layer_graph [OF g])
  have mv: "mv = 1001" and nonempty: "\<forall>j\<le>1001. nth_layer v S j \<noteq> {}"
    and work: "\<forall>j\<le>1000. work_at v S j \<noteq> 0"
  proof -
    have a: "mv = 1001" "nth_layer v S mv \<noteq> {}" "work_at v S 1000 \<noteq> 0"
      "\<forall>j<mv. nth_layer v S j \<noteq> {}" "\<forall>j. Suc j < mv \<longrightarrow> work_at v S j \<noteq> 0"
      using v by (auto simp: loop_outcome_def)
    show "mv = 1001" by (rule a(1))
    show "\<forall>j\<le>1001. nth_layer v S j \<noteq> {}"
      using a(1,2,4) by (auto simp: le_less)
    show "\<forall>j\<le>1000. work_at v S j \<noteq> 0"
    proof (intro allI impI)
      fix j :: nat assume "j \<le> 1000"
      then consider "j = 1000" | "Suc j < 1001" by linarith
      then show "work_at v S j \<noteq> 0" using a(1,3,5) by cases auto
    qed
  qed
  have mu: "mu \<le> 1001"
    and endu: "nth_layer u S mu = {} \<or> 0 < mu \<and> work_at u S (mu - 1) = 0"
    using u by (simp_all add: loop_outcome_def)
  from endu show False
  proof
    assume "nth_layer u S mu = {}"
    then show False using nonempty mu L by simp
  next
    assume "0 < mu \<and> work_at u S (mu - 1) = 0"
    then have "work_at v S (mu - 1) = 0" using work_at_cong [OF g m] by simp
    moreover have "mu - 1 \<le> 1000" using mu by simp
    ultimately show False using work by blast
  qed
qed

lemma rebuild_outcome_cong:
  assumes g: "same_graph u v" and m: "mset (ancestors_table u) = mset (ancestors_table v)"
  shows "fst (simultaneous_ancestry_rebuild S u) = fst (simultaneous_ancestry_rebuild S v)"
proof (cases "S = {}")
  case True
  then show ?thesis by (simp add: simultaneous_ancestry_rebuild_def)
next
  case False
  let ?u = "seed_purge S u" and ?v = "seed_purge S v"
  have g': "same_graph ?u ?v"
    using g graph_seed_purge [of u S] graph_seed_purge [of v S] by (simp add: same_graph_def)
  have m': "mset (ancestors_table ?u) = mset (ancestors_table ?v)"
    using m by (simp add: seed_purge_def)
  obtain mu where ou: "loop_outcome S ?u mu (rebuild_loop 0 S ?u)" using loop_trace by blast
  obtain mv where ov: "loop_outcome S ?v mv (rebuild_loop 0 S ?v)" using loop_trace by blast
  obtain ru wu where ru: "rebuild_loop 0 S ?u = (ru, wu)" by (cases "rebuild_loop 0 S ?u")
  obtain rv wv where rv: "rebuild_loop 0 S ?v = (rv, wv)" by (cases "rebuild_loop 0 S ?v")
  have kinds: "ru = None \<or> ru = Some InfiniteLoopDetected"
     "rv = None \<or> rv = Some InfiniteLoopDetected"
    using ou ov ru rv by (auto simp: loop_outcome_def)
  have "ru = rv"
  proof (rule ccontr)
    assume "ru \<noteq> rv"
    then consider "ru = None" "rv = Some InfiniteLoopDetected"
      | "rv = None" "ru = Some InfiniteLoopDetected"
      using kinds by auto
    then show False
    proof cases
      case 1
      then show ?thesis using outcome_not_both [OF g' m'] ou ov ru rv by simp
    next
      case 2
      then show ?thesis
        using outcome_not_both [OF same_graph_sym [OF g'] m' [symmetric]] ou ov ru rv by simp
    qed
  qed
  then show ?thesis using False ru rv by (simp add: simultaneous_ancestry_rebuild_def)
qed

lemma atomic_rebuild_twice:
  assumes fk: "parents_in_roles w"
    and run1: "atomic (simultaneous_ancestry_rebuild S) w = (r, w1)"
  shows "\<exists>w2. atomic (simultaneous_ancestry_rebuild S) w1 = (r, w2) \<and>
           mset (ancestors_table w2) = mset (ancestors_table w1)"
proof (cases r)
  case None
  then have "simultaneous_ancestry_rebuild S w = (None, w1)"
    using run1 by (auto simp: atomic_def split: prod.splits option.splits)
  then obtain w2 where "simultaneous_ancestry_rebuild S w1 = (None, w2)"
      "mset (ancestors_table w2) = mset (ancestors_table w1)"
    using rebuild_twice [OF fk] by blast
  then show ?thesis using None by (simp add: atomic_def)
next
  case (Some e)
  then obtain w' where first: "simultaneous_ancestry_rebuild S w = (Some e, w')"
      and w1: "w1 = w'\<lparr>ancestors_table := ancestors_table w\<rparr>"
    using run1 by (auto simp: atomic_def split: prod.splits option.splits)
  have "same_frame w w'"
    using simultaneous_ancestry_rebuild_frame [of w S] first by simp
  then have g: "same_graph w1 w" using w1 by (simp add: same_frame_def same_graph_def)
  have m: "mset (ancestors_table w1) = mset (ancestors_table w)" using w1 by simp
  have "fst (simultaneous_ancestry_rebuild S w1) = Some e"
    using rebuild_outcome_cong [OF g m, of S] first by simp
  then show ?thesis using Some
    by (cases "simultaneous_ancestry_rebuild S w1") (simp add: atomic_def)
qed

subsection \<open>The claim\<close>

text \<open>
  Claim C7. On a store whose parent edges point to existing roles (the foreign key of
  the parents table), rebuilding the same seed \<open>S\<close> twice in a row is the same as
  rebuilding it once. When a rebuild returns normally, the same rebuild run again at
  once returns normally too and leaves the ancestors table with the same rows, each as
  often as before (the tables are equal as multisets; the rows the purge removes come
  back at the end of the table). Inside its transaction, as the batching context runs
  it, the second run ends as the first did, also when the first was aborted and rolled
  back, and again leaves the same rows.
\<close>

theorem rebuild_is_idempotent:
  assumes fk: "parents_in_roles w"
  shows "(simultaneous_ancestry_rebuild S w = (None, wa) \<longrightarrow>
           (\<exists>w2. simultaneous_ancestry_rebuild S wa = (None, w2) \<and>
              mset (ancestors_table w2) = mset (ancestors_table wa))) \<and>
         (atomic (simultaneous_ancestry_rebuild S) w = (r, wb) \<longrightarrow>
           (\<exists>w2. atomic (simultaneous_ancestry_rebuild S) wb = (r, w2) \<and>
              mset (ancestors_table w2) = mset (ancestors_table wb)))"
  using rebuild_twice [OF fk] atomic_rebuild_twice [OF fk] by blast

theorem rebuild_is_idempotent_witness:
  "(\<exists>w2. simultaneous_ancestry_rebuild {1}
            (snd (simultaneous_ancestry_rebuild {1} cycle_store)) = (None, w2) \<and>
          mset (ancestors_table w2)
            = mset (ancestors_table (snd (simultaneous_ancestry_rebuild {1} cycle_store)))) \<and>
   (\<exists>w2. atomic (simultaneous_ancestry_rebuild {1})
            (snd (simultaneous_ancestry_rebuild {1} cycle_store)) = (None, w2) \<and>
          mset (ancestors_table w2)
            = mset (ancestors_table (snd (simultaneous_ancestry_rebuild {1} cycle_store))))"
proof -
  let ?w = "snd (simultaneous_ancestry_rebuild {1} cycle_store)"
  have fk: "parents_in_roles cycle_store"
    by (simp add: parents_in_roles_def cycle_store_def store_defs)
  have ok: "fst (simultaneous_ancestry_rebuild {1} cycle_store) = None"
    by (simp add: engine_defs cycle_store_def store_defs)
  then have run: "simultaneous_ancestry_rebuild {1} cycle_store = (None, ?w)"
    by (simp add: prod_eq_iff)
  have arun: "atomic (simultaneous_ancestry_rebuild {1}) cycle_store = (None, ?w)"
    using ok by (auto simp: atomic_def split: prod.splits option.splits)
  show ?thesis
    using rebuild_is_idempotent [OF fk, where S = "{1}" and wa = ?w and r = None and wb = ?w]
      run arun by blast
qed

end
